theory Spec2Isabelle
  imports Complex_Main "HOL-Library.FSet"
begin

section \<open>Data model\<close>

text \<open>
  The source is \<^verbatim>\<open>layer_system.py\<close>. Python integers are unbounded and are modelled
  as \<open>int\<close>; list positions and lengths are \<open>nat\<close>. Python floats are idealised as
  \<open>real\<close>: \<open>a / b\<close> is the exact quotient, \<^verbatim>\<open>math.log\<close> is \<open>ln\<close>,
  \<^verbatim>\<open>x ** 0.5\<close> and \<^verbatim>\<open>math.sqrt\<close> are \<open>sqrt\<close>, and \<^verbatim>\<open>int(x)\<close> truncates towards zero.
  Rounding and overflow of floats are outside the model.

  Operations of Python that can raise return a sum type, \<open>Inl\<close> the exception. A loop
  that the source does not bound returns an option, \<open>None\<close> for a run that never ends.
\<close>

datatype py_error = ZeroDivisionError | ValueError | IndexError

definition py_int :: "real \<Rightarrow> int" where
  "py_int x = (if 0 \<le> x then \<lfloor>x\<rfloor> else \<lceil>x\<rceil>)"

definition py_truediv :: "int \<Rightarrow> int \<Rightarrow> py_error + real" where
  "py_truediv a b = (if b = 0 then Inl ZeroDivisionError else Inr (real_of_int a / real_of_int b))"

definition py_log :: "real \<Rightarrow> py_error + real" where
  "py_log x = (if 0 < x then Inr (ln x) else Inl ValueError)"

text \<open>\<^verbatim>\<open>int(x ** 0.5)\<close> for an integer \<open>x\<close>; the source applies it to \<open>x \<ge> 2\<close> only.\<close>

definition py_isqrt :: "int \<Rightarrow> int" where
  "py_isqrt x = py_int (sqrt (real_of_int x))"

text \<open>\<^verbatim>\<open>range(start, stop, step)\<close> for a positive step.\<close>

definition py_range3 :: "int \<Rightarrow> int \<Rightarrow> int \<Rightarrow> int list" where
  "py_range3 start stop step =
     map (\<lambda>t. start + int t * step) [0..<nat ((stop - start + step - 1) div step)]"

text \<open>\<^verbatim>\<open>enumerate(xs, start)\<close>: the elements paired with their positions.\<close>

fun py_enumerate :: "int \<Rightarrow> 'a list \<Rightarrow> (int \<times> 'a) list" where
  "py_enumerate start [] = []"
| "py_enumerate start (x # xs) = (start, x) # py_enumerate (start + 1) xs"

text \<open>
  Each entry of \<^verbatim>\<open>self.results\<close> is a dictionary with the keys
  \<^verbatim>\<open>k, prime, void, sum, ratio\<close>; it becomes a record. The value \<^verbatim>\<open>None\<close> of
  \<^verbatim>\<open>ratio\<close> is \<open>None\<close> of an option type.
\<close>

record layer_record =
  rec_k :: int
  rec_prime :: int
  rec_void :: int
  rec_sum :: int
  rec_ratio :: "real option"

text \<open>The entries of \<^verbatim>\<open>mismatches\<close> and the dictionary that \<^verbatim>\<open>verify_bijection\<close> returns.\<close>

record mismatch =
  mm_k :: int
  mm_void :: int
  mm_expected :: int

record bijection_report =
  vb_total :: int
  vb_matches :: int
  vb_accuracy :: real
  vb_mismatches :: "mismatch list"

text \<open>The attributes of a \<^verbatim>\<open>LayerSystem\<close> object.\<close>

record layer_system =
  ls_n_primes :: int
  ls_primes :: "int list"
  ls_composites :: "int list"
  ls_results :: "layer_record list"

section \<open>Primes and composites, as the specification defines them\<close>

text \<open>
  A prime is an integer above 1 with no divisor other than 1 and itself; a composite
  is an integer from 4 on that is not prime.
\<close>

definition is_prime :: "int \<Rightarrow> bool" where
  "is_prime p \<longleftrightarrow> 1 < p \<and> (\<forall>d \<in> {2..<p}. \<not> d dvd p)"

definition is_composite :: "int \<Rightarrow> bool" where
  "is_composite c \<longleftrightarrow> 4 \<le> c \<and> \<not> is_prime c"

text \<open>
  \<open>first_of P xs\<close>: the list \<open>xs\<close> holds, in increasing order, the \<open>length xs\<close>
  smallest integers that satisfy \<open>P\<close>.
\<close>

definition first_of :: "(int \<Rightarrow> bool) \<Rightarrow> int list \<Rightarrow> bool" where
  "first_of P xs \<longleftrightarrow>
     sorted_wrt (<) xs \<and> (\<forall>x \<in> set xs. P x) \<and>
     (\<forall>x \<in> set xs. \<forall>q. P q \<and> q < x \<longrightarrow> q \<in> set xs)"

section \<open>\<^verbatim>\<open>sieve_of_eratosthenes\<close>\<close>

text \<open>
  \<^verbatim>\<open>
  for j in range(i * i, limit + 1, i):
      is_prime[j] = False
  \<close>
  Every index written or read is at most \<open>limit\<close>, inside the list of length
  \<open>limit + 1\<close>.
\<close>

definition mark_multiples :: "int \<Rightarrow> int \<Rightarrow> bool list \<Rightarrow> bool list" where
  "mark_multiples limit i flags =
     fold (\<lambda>j fl. fl[nat j := False]) (py_range3 (i * i) (limit + 1) i) flags"

definition sieve_step :: "int \<Rightarrow> int \<Rightarrow> bool list \<Rightarrow> bool list" where
  "sieve_step limit i flags = (if flags ! nat i then mark_multiples limit i flags else flags)"

definition sieve_of_eratosthenes :: "int \<Rightarrow> int list" where
  "sieve_of_eratosthenes limit =
     (if limit < 2 then []
      else
        let flags = replicate (nat (limit + 1)) True;
            flags = flags[0 := False];
            flags = flags[1 := False];
            flags = fold (sieve_step limit) [2..py_isqrt limit] flags
        in filter (\<lambda>i. flags ! nat i) [2..limit])"

section \<open>\<^verbatim>\<open>generate_primes\<close>\<close>

text \<open>
  \<^verbatim>\<open>
  while len(primes) < n:
      limit = int(limit * 1.5)
      primes = sieve_of_eratosthenes(limit)
  \<close>
  Nothing in the source bounds the number of rounds.
\<close>

partial_function (option) sieve_until :: "int \<Rightarrow> int \<Rightarrow> int list \<Rightarrow> int list option" where
  "sieve_until n limit primes =
     (if int (length primes) < n
      then sieve_until n (py_int (real_of_int limit * 1.5))
             (sieve_of_eratosthenes (py_int (real_of_int limit * 1.5)))
      else Some primes)"

definition initial_limit :: "int \<Rightarrow> int" where
  "initial_limit n =
     (if n < 6 then 15
      else py_int (real_of_int n * (ln (real_of_int n) + ln (ln (real_of_int n)) + 2)))"

definition generate_primes :: "int \<Rightarrow> int list option" where
  "generate_primes n =
     (if n \<le> 0 then Some []
      else
        let limit = initial_limit n;
            primes = sieve_of_eratosthenes limit
        in map_option (take (nat n)) (sieve_until n limit primes))"

section \<open>\<^verbatim>\<open>generate_composites\<close>\<close>

text \<open>
  The \<^verbatim>\<open>for ... else\<close> over \<^verbatim>\<open>range(3, int(num ** 0.5) + 1, 2)\<close>: \<open>True\<close> at the first
  divisor (the \<^verbatim>\<open>break\<close>), \<open>False\<close> when the range is used up (the \<^verbatim>\<open>else\<close>).
\<close>

fun trial_division :: "int \<Rightarrow> int list \<Rightarrow> bool" where
  "trial_division num [] = False"
| "trial_division num (i # rest) = (if num mod i = 0 then True else trial_division num rest)"

definition check_composite :: "int \<Rightarrow> bool" where
  "check_composite num =
     (if num < 2 then False
      else if num = 2 then False
      else if num mod 2 = 0 then True
      else trial_division num (py_range3 3 (py_isqrt num + 1) 2))"

function composites_loop :: "int \<Rightarrow> int list \<Rightarrow> int \<Rightarrow> int list" where
  "composites_loop n composites num =
     (if int (length composites) < n
      then composites_loop n
             (if check_composite num then composites @ [num] else composites) (num + 1)
      else composites)"
  by pat_completeness auto
termination
proof (relation "measures [\<lambda>(n, composites, num). nat (n - int (length composites)),
                           \<lambda>(n, composites, num). nat (4 - num),
                           \<lambda>(n, composites, num). nat (num mod 2)]")
  show "wf (measures [\<lambda>(n, composites, num). nat (n - int (length composites)),
                      \<lambda>(n, composites, num). nat (4 - num),
                      \<lambda>(n, composites, num). nat (num mod 2)])"
    by simp
next
  fix n :: int and composites :: "int list" and num :: int
  assume less: "int (length composites) < n"
  show "((n, if check_composite num then composites @ [num] else composites, num + 1),
         (n, composites, num))
        \<in> measures [\<lambda>(n, composites, num). nat (n - int (length composites)),
                     \<lambda>(n, composites, num). nat (4 - num),
                     \<lambda>(n, composites, num). nat (num mod 2)]"
  proof (cases "check_composite num")
    case True
    with less show ?thesis by simp
  next
    case False
    show ?thesis
    proof (cases "num < 4")
      case True
      with False show ?thesis by simp
    next
      case ge: False
      with False have "num mod 2 \<noteq> 0"
        by (auto simp: check_composite_def split: if_splits)
      then have "num mod 2 = 1" "(num + 1) mod 2 = 0"
        by presburger+
      with False ge show ?thesis by simp
    qed
  qed
qed

declare composites_loop.simps [simp del]

definition generate_composites :: "int \<Rightarrow> int list" where
  "generate_composites n = (if n \<le> 0 then [] else composites_loop n [] 4)"

section \<open>The decomposition engine: \<^verbatim>\<open>LayerSystem._compute_layers\<close>\<close>

text \<open>
  \<^verbatim>\<open>
  v = 1
  while v in endpoints:
      v += 1
  \<close>
  The set \<^verbatim>\<open>endpoints\<close> is a Python \<^verbatim>\<open>set\<close>, always finite: a finite set of integers,
  used through membership tests and insertions only. The loop is
  \<open>find_void endpoints 1\<close>; it ends because each round leaves one member of the set
  behind the candidate.
\<close>

function find_void :: "int fset \<Rightarrow> int \<Rightarrow> int" where
  "find_void endpoints v = (if v |\<in>| endpoints then find_void endpoints (v + 1) else v)"
  by pat_completeness auto
termination
proof (relation "measure (\<lambda>(endpoints, v). card {u \<in> fset endpoints. v \<le> u})")
  show "wf (measure (\<lambda>(endpoints, v). card {u \<in> fset endpoints. v \<le> u}))"
    by simp
next
  fix E :: "int fset" and c :: int
  assume mem: "c |\<in>| E"
  have "c \<in> {u \<in> fset E. c \<le> u}" and "c \<notin> {u \<in> fset E. c + 1 \<le> u}"
    using mem by simp_all
  moreover have "{u \<in> fset E. c + 1 \<le> u} \<subseteq> {u \<in> fset E. c \<le> u}"
    by auto
  ultimately have "{u \<in> fset E. c + 1 \<le> u} \<subset> {u \<in> fset E. c \<le> u}"
    by blast
  then have "card {u \<in> fset E. c + 1 \<le> u} < card {u \<in> fset E. c \<le> u}"
    by (intro psubset_card_mono) simp_all
  then show "((E, c + 1), (E, c))
      \<in> measure (\<lambda>(endpoints, v). card {u \<in> fset endpoints. v \<le> u})"
    by simp
qed

declare find_void.simps [simp del]

text \<open>
  The branches of one round test the value \<open>p\<close>, as the source does, not the rank
  \<open>k\<close>. The result is the void and the set after the insertions.
\<close>

definition assign_void :: "int \<Rightarrow> int fset \<Rightarrow> int \<times> int fset" where
  "assign_void p endpoints =
     (if p = 2 then (1, endpoints |\<union>| {|1, 2|})
      else if p = 3 then (2, endpoints |\<union>| {|2, 3|})
      else (let v = find_void endpoints 1
            in (v, finsert p (finsert v endpoints))))"

text \<open>
  The dictionary appended to \<^verbatim>\<open>self.results\<close>. The division \<^verbatim>\<open>p / s\<close> stands
  behind the test \<^verbatim>\<open>s > 0\<close>.
\<close>

definition make_record :: "int \<Rightarrow> int \<Rightarrow> int \<Rightarrow> py_error + layer_record" where
  "make_record k p v =
     (let s = p - v
      in case (if s > 0 then map_sum id Some (py_truediv p s) else Inr None) of
           Inl e \<Rightarrow> Inl e
         | Inr ratio \<Rightarrow>
             Inr \<lparr>rec_k = k, rec_prime = p, rec_void = v, rec_sum = s, rec_ratio = ratio\<rparr>)"

text \<open>
  \<^verbatim>\<open>for k, p in enumerate(self.primes, 1)\<close>: the state is the pair of the set
  \<^verbatim>\<open>endpoints\<close> and the list \<^verbatim>\<open>self.results\<close>.
\<close>

fun layer_loop ::
  "(int \<times> int) list \<Rightarrow> int fset \<times> layer_record list \<Rightarrow>
     py_error + int fset \<times> layer_record list" where
  "layer_loop [] st = Inr st"
| "layer_loop ((k, p) # rest) (endpoints, results) =
     (case assign_void p endpoints of (v, endpoints') \<Rightarrow>
        (case make_record k p v of
           Inl e \<Rightarrow> Inl e
         | Inr r \<Rightarrow> layer_loop rest (endpoints', results @ [r])))"

definition compute_layers_state :: "int list \<Rightarrow> py_error + int fset \<times> layer_record list" where
  "compute_layers_state primes = layer_loop (py_enumerate 1 primes) ({||}, [])"

definition compute_layers :: "int list \<Rightarrow> py_error + layer_record list" where
  "compute_layers primes = map_sum id snd (compute_layers_state primes)"

text \<open>\<^verbatim>\<open>LayerSystem.__init__\<close>.\<close>

definition LayerSystem :: "int \<Rightarrow> (py_error + layer_system) option" where
  "LayerSystem n_primes =
     (case generate_primes n_primes of
        None \<Rightarrow> None
      | Some primes \<Rightarrow>
          Some (let composites = generate_composites n_primes
                in case compute_layers primes of
                     Inl e \<Rightarrow> Inl e
                   | Inr results \<Rightarrow>
                       Inr \<lparr>ls_n_primes = n_primes, ls_primes = primes,
                            ls_composites = composites, ls_results = results\<rparr>))"

section \<open>\<^verbatim>\<open>LayerSystem.verify_bijection\<close>\<close>

text \<open>
  The loop over \<^verbatim>\<open>self.results\<close> with its two accumulators. The read
  \<^verbatim>\<open>self.composites[k - 3]\<close> has \<open>k - 3 \<ge> 0\<close> and raises \<^verbatim>\<open>IndexError\<close> past the end
  of the list.
\<close>

fun verify_loop ::
  "int list \<Rightarrow> layer_record list \<Rightarrow> int \<times> mismatch list \<Rightarrow> py_error + int \<times> mismatch list" where
  "verify_loop composites [] acc = Inr acc"
| "verify_loop composites (result # rest) (matches, mismatches) =
     (let k = rec_k result; v = rec_void result
      in if k \<ge> 3
         then (if nat (k - 3) < length composites
               then (let expected_composite = composites ! nat (k - 3)
                     in if v = expected_composite
                        then verify_loop composites rest (matches + 1, mismatches)
                        else verify_loop composites rest
                               (matches, mismatches @
                                  [\<lparr>mm_k = k, mm_void = v, mm_expected = expected_composite\<rparr>]))
               else Inl IndexError)
         else verify_loop composites rest (matches, mismatches))"

definition verify_bijection :: "layer_record list \<Rightarrow> int list \<Rightarrow> py_error + bijection_report" where
  "verify_bijection results composites =
     (case verify_loop composites results (0, []) of
        Inl e \<Rightarrow> Inl e
      | Inr (matches, mismatches) \<Rightarrow>
          (let total = int (length (filter (\<lambda>r. rec_k r \<ge> 3) results));
               accuracy = (if total > 0 then real_of_int (100 * matches) / real_of_int total else 0)
           in Inr \<lparr>vb_total = total, vb_matches = matches, vb_accuracy = accuracy,
                   vb_mismatches = mismatches\<rparr>))"

section \<open>\<^verbatim>\<open>LayerSystem.calculate_constant\<close>\<close>

text \<open>
  The loop that fills \<^verbatim>\<open>constants\<close>. \<^verbatim>\<open>math.log\<close> raises \<^verbatim>\<open>ValueError\<close> outside its
  domain, \<^verbatim>\<open>p / s\<close> raises \<^verbatim>\<open>ZeroDivisionError\<close> at \<open>s = 0\<close>.
\<close>

definition constant_of :: "int \<Rightarrow> int \<Rightarrow> py_error + real" where
  "constant_of p s =
     (case py_log (real_of_int p) of
        Inl e \<Rightarrow> Inl e
      | Inr ln_p \<Rightarrow>
          (case py_log ln_p of
             Inl e \<Rightarrow> Inl e
           | Inr ln_ln_p \<Rightarrow>
               (case py_truediv p s of
                  Inl e \<Rightarrow> Inl e
                | Inr q \<Rightarrow> Inr ((q - 1) * ln_p * ln_ln_p))))"

fun collect_constants :: "int \<Rightarrow> layer_record list \<Rightarrow> real list \<Rightarrow> py_error + real list" where
  "collect_constants min_prime [] constants = Inr constants"
| "collect_constants min_prime (result # rest) constants =
     (let p = rec_prime result; s = rec_sum result
      in if p > min_prime \<and> s > 0
         then (case constant_of p s of
                 Inl e \<Rightarrow> Inl e
               | Inr c \<Rightarrow> collect_constants min_prime rest (constants @ [c]))
         else collect_constants min_prime rest constants)"

text \<open>The local variables \<^verbatim>\<open>avg_constant\<close> and \<^verbatim>\<open>std_dev\<close>, for a non-empty list.\<close>

definition avg_constant :: "real list \<Rightarrow> real" where
  "avg_constant constants = sum_list constants / real (length constants)"

definition std_dev :: "real list \<Rightarrow> real" where
  "std_dev constants =
     sqrt (sum_list (map (\<lambda>c. (c - avg_constant constants)\<^sup>2) constants) / real (length constants))"

definition calculate_constant :: "layer_record list \<Rightarrow> int \<Rightarrow> py_error + real" where
  "calculate_constant results min_prime =
     (case collect_constants min_prime results [] of
        Inl e \<Rightarrow> Inl e
      | Inr constants \<Rightarrow> if constants = [] then Inr 0 else Inr (avg_constant constants))"

section \<open>The decomposition engine with the order of the set made explicit\<close>

text \<open>
  Python gives the elements of a \<^verbatim>\<open>set\<close> no order of their own: the order in which a
  set would be iterated comes from the hash table and may differ from one run to the
  next. To speak about that order, \<^verbatim>\<open>_compute_layers\<close> is translated a second time
  with \<^verbatim>\<open>endpoints\<close> as the sequence of its elements in iteration order. The
  parameter \<open>layout\<close> stands for the interpreter: after an insertion it may rearrange
  the sequence in any way. The engine itself is read from the same source lines:
  \<^verbatim>\<open>v in endpoints\<close> is a lookup, \<^verbatim>\<open>endpoints.add(x)\<close> inserts \<open>x\<close> unless it is
  there, and \<^verbatim>\<open>endpoints.update([a, b])\<close> adds \<open>a\<close>, then \<open>b\<close>.
\<close>

definition store_add :: "(int list \<Rightarrow> int list) \<Rightarrow> int \<Rightarrow> int list \<Rightarrow> int list" where
  "store_add layout x store = (if x \<in> set store then store else layout (store @ [x]))"

function find_void_ordered :: "int list \<Rightarrow> int \<Rightarrow> int" where
  "find_void_ordered store v =
     (if v \<in> set store then find_void_ordered store (v + 1) else v)"
  by pat_completeness auto
termination
proof (relation "measure (\<lambda>(store, v). card {u \<in> set store. v \<le> u})")
  show "wf (measure (\<lambda>(store, v). card {u \<in> set store. v \<le> u}))"
    by simp
next
  fix store :: "int list" and c :: int
  assume mem: "c \<in> set store"
  have "c \<in> {u \<in> set store. c \<le> u}" and "c \<notin> {u \<in> set store. c + 1 \<le> u}"
    using mem by simp_all
  moreover have "{u \<in> set store. c + 1 \<le> u} \<subseteq> {u \<in> set store. c \<le> u}"
    by auto
  ultimately have "{u \<in> set store. c + 1 \<le> u} \<subset> {u \<in> set store. c \<le> u}"
    by blast
  then have "card {u \<in> set store. c + 1 \<le> u} < card {u \<in> set store. c \<le> u}"
    by (intro psubset_card_mono) simp_all
  then show "((store, c + 1), (store, c))
      \<in> measure (\<lambda>(store, v). card {u \<in> set store. v \<le> u})"
    by simp
qed

declare find_void_ordered.simps [simp del]

definition assign_void_ordered ::
  "(int list \<Rightarrow> int list) \<Rightarrow> int \<Rightarrow> int list \<Rightarrow> int \<times> int list" where
  "assign_void_ordered layout p endpoints =
     (if p = 2 then (1, store_add layout 2 (store_add layout 1 endpoints))
      else if p = 3 then (2, store_add layout 3 (store_add layout 2 endpoints))
      else (let v = find_void_ordered endpoints 1
            in (v, store_add layout p (store_add layout v endpoints))))"

fun layer_loop_ordered ::
  "(int list \<Rightarrow> int list) \<Rightarrow> (int \<times> int) list \<Rightarrow> int list \<times> layer_record list \<Rightarrow>
     py_error + int list \<times> layer_record list" where
  "layer_loop_ordered layout [] st = Inr st"
| "layer_loop_ordered layout ((k, p) # rest) (endpoints, results) =
     (case assign_void_ordered layout p endpoints of (v, endpoints') \<Rightarrow>
        (case make_record k p v of
           Inl e \<Rightarrow> Inl e
         | Inr r \<Rightarrow> layer_loop_ordered layout rest (endpoints', results @ [r])))"

definition compute_layers_ordered ::
  "(int list \<Rightarrow> int list) \<Rightarrow> int list \<Rightarrow> py_error + layer_record list" where
  "compute_layers_ordered layout primes =
     map_sum id snd (layer_loop_ordered layout (py_enumerate 1 primes) ([], []))"

text \<open>
  A run of the whole pipeline under a layout. Prime and composite generation use
  lists only, so the layout reaches the engine alone.
\<close>

definition LayerSystem_ordered ::
  "(int list \<Rightarrow> int list) \<Rightarrow> int \<Rightarrow> (py_error + layer_system) option" where
  "LayerSystem_ordered layout n_primes =
     (case generate_primes n_primes of
        None \<Rightarrow> None
      | Some primes \<Rightarrow>
          Some (let composites = generate_composites n_primes
                in case compute_layers_ordered layout primes of
                     Inl e \<Rightarrow> Inl e
                   | Inr results \<Rightarrow>
                       Inr \<lparr>ls_n_primes = n_primes, ls_primes = primes,
                            ls_composites = composites, ls_results = results\<rparr>))"


section \<open>Auxiliary notions for the proofs\<close>

text \<open>The record that one round appends, and the state after a run that raised nothing.\<close>

definition record_of :: "int \<Rightarrow> int \<Rightarrow> int \<Rightarrow> layer_record" where
  "record_of k p v =
     \<lparr>rec_k = k, rec_prime = p, rec_void = v, rec_sum = p - v,
      rec_ratio = (if p - v > 0 then Some (real_of_int p / real_of_int (p - v)) else None)\<rparr>"

definition endpoints_after :: "int list \<Rightarrow> int fset" where
  "endpoints_after primes = fst (projr (compute_layers_state primes))"

definition records_after :: "int list \<Rightarrow> layer_record list" where
  "records_after primes = snd (projr (compute_layers_state primes))"

text \<open>
  \<open>sieved limit r flags\<close>: the state of the list \<^verbatim>\<open>is_prime\<close> once the outer loop has
  handled every \<open>i \<le> r\<close>.
\<close>

definition sieved :: "int \<Rightarrow> int \<Rightarrow> bool list \<Rightarrow> bool" where
  "sieved limit r flags \<longleftrightarrow>
     length flags = nat (limit + 1) \<and>
     (\<forall>m. int m \<le> limit \<longrightarrow>
        flags ! m = (2 \<le> int m \<and> \<not> (\<exists>d. 2 \<le> d \<and> d \<le> r \<and> d * d \<le> int m \<and> d dvd int m)))"

text \<open>
  \<open>layered L v\<close>: the state of the engine after the primes up to \<open>L\<close>, when the last
  void handed out is \<open>v\<close>.
\<close>

definition layered :: "int \<Rightarrow> int \<Rightarrow> bool" where
  "layered L v \<longleftrightarrow>
     2 \<le> v \<and> v \<le> L - 1 \<and>
     fset (endpoints_after (filter is_prime [2..L])) =
       {1} \<union> set (filter is_prime [2..L]) \<union> set (filter is_composite [4..v]) \<and>
     map rec_void (records_after (filter is_prime [2..L])) =
       [1, 2] @ filter is_composite [4..v] \<and>
     (\<forall>r \<in> set (records_after (filter is_prime [2..L])). rec_void r < rec_prime r)"


section \<open>The decomposition engine never raises\<close>

lemma make_record_eq: "make_record k p v = Inr (record_of k p v)"
  by (simp add: make_record_def record_of_def py_truediv_def Let_def)

lemma record_of_sel [simp]:
  "rec_k (record_of k p v) = k"
  "rec_prime (record_of k p v) = p"
  "rec_void (record_of k p v) = v"
  "rec_sum (record_of k p v) = p - v"
  "rec_ratio (record_of k p v) =
     (if p - v > 0 then Some (real_of_int p / real_of_int (p - v)) else None)"
  by (simp_all add: record_of_def)

lemma py_enumerate_append:
  "py_enumerate s (xs @ ys) = py_enumerate s xs @ py_enumerate (s + int (length xs)) ys"
  by (induction xs arbitrary: s) (simp_all add: algebra_simps)

lemma layer_loop_append:
  "layer_loop (xs @ ys) st =
     (case layer_loop xs st of Inl e \<Rightarrow> Inl e | Inr st' \<Rightarrow> layer_loop ys st')"
proof (induction xs st rule: layer_loop.induct)
  case (1 st)
  then show ?case by simp
next
  case (2 k p rest endpoints results)
  then show ?case
    by (simp add: make_record_eq split: prod.splits)
qed

lemma layer_loop_total: "\<exists>st'. layer_loop kps st = Inr st'"
proof (induction kps st rule: layer_loop.induct)
  case (1 st)
  then show ?case by simp
next
  case (2 k p rest endpoints results)
  then show ?case
    by (simp add: make_record_eq split: prod.splits)
qed

lemma compute_layers_state_eq:
  "compute_layers_state ps = Inr (endpoints_after ps, records_after ps)"
proof -
  obtain st where "compute_layers_state ps = Inr st"
    unfolding compute_layers_state_def using layer_loop_total by blast
  then show ?thesis
    by (simp add: endpoints_after_def records_after_def)
qed

lemma compute_layers_eq: "compute_layers ps = Inr (records_after ps)"
  by (simp add: compute_layers_def compute_layers_state_eq)

lemma compute_layers_state_snoc:
  "compute_layers_state (ps @ [p]) =
     Inr (snd (assign_void p (endpoints_after ps)),
          records_after ps @
            [record_of (1 + int (length ps)) p (fst (assign_void p (endpoints_after ps)))])"
  unfolding compute_layers_state_def py_enumerate_append layer_loop_append
  using compute_layers_state_eq [of ps, unfolded compute_layers_state_def]
  by (simp add: make_record_eq split: prod.splits)

lemma endpoints_after_Nil [simp]: "endpoints_after [] = {||}"
  by (simp add: endpoints_after_def compute_layers_state_def)

lemma records_after_Nil [simp]: "records_after [] = []"
  by (simp add: records_after_def compute_layers_state_def)

lemma endpoints_after_snoc:
  "endpoints_after (ps @ [p]) = snd (assign_void p (endpoints_after ps))"
  by (simp add: endpoints_after_def compute_layers_state_snoc)

lemma records_after_snoc:
  "records_after (ps @ [p]) =
     records_after ps @
       [record_of (1 + int (length ps)) p (fst (assign_void p (endpoints_after ps)))]"
  by (simp add: records_after_def compute_layers_state_snoc endpoints_after_def)

lemma length_records_after [simp]: "length (records_after ps) = length ps"
  by (induction ps rule: rev_induct) (simp_all add: records_after_snoc)

lemma records_after_shape:
  "r \<in> set (records_after ps) \<Longrightarrow> \<exists>k p v. r = record_of k p v"
  by (induction ps rule: rev_induct) (auto simp: records_after_snoc)

lemma map_rec_prime_records_after [simp]: "map rec_prime (records_after ps) = ps"
  by (induction ps rule: rev_induct) (simp_all add: records_after_snoc)

lemma map_rec_k_records_after: "map rec_k (records_after ps) = map int [1..<Suc (length ps)]"
  by (induction ps rule: rev_induct) (simp_all add: records_after_snoc)


section \<open>The void search\<close>

lemma find_void_ge: "v \<le> find_void E v"
proof (induction E v rule: find_void.induct)
  case (1 endpoints v)
  show ?case
  proof (cases "v |\<in>| endpoints")
    case True
    with 1 have "v + 1 \<le> find_void endpoints (v + 1)" by simp
    with True show ?thesis by (subst find_void.simps) simp
  next
    case False
    then show ?thesis by (subst find_void.simps) simp
  qed
qed

lemma find_void_notin: "find_void E v |\<notin>| E"
proof (induction E v rule: find_void.induct)
  case (1 endpoints v)
  then show ?case by (subst find_void.simps) simp
qed

lemma find_void_below: "v \<le> u \<Longrightarrow> u < find_void E v \<Longrightarrow> u |\<in>| E"
proof (induction E v rule: find_void.induct)
  case (1 endpoints v)
  show ?case
  proof (cases "v |\<in>| endpoints")
    case True
    with 1 have below: "u < find_void endpoints (v + 1)"
      by (subst (asm) (2) find_void.simps) simp
    show ?thesis
    proof (cases "u = v")
      case True
      with \<open>v |\<in>| endpoints\<close> show ?thesis by simp
    next
      case False
      with 1 have "v + 1 \<le> u" by simp
      with 1 True below show ?thesis by simp
    qed
  next
    case False
    with 1 show ?thesis by (subst (asm) (2) find_void.simps) simp
  qed
qed

lemma find_void_unique:
  assumes "v \<le> w" and "w |\<notin>| E" and "\<And>u. v \<le> u \<Longrightarrow> u < w \<Longrightarrow> u |\<in>| E"
  shows "find_void E v = w"
proof (rule antisym)
  show "find_void E v \<le> w"
  proof (rule ccontr)
    assume "\<not> find_void E v \<le> w"
    then have "w < find_void E v" by simp
    with assms(1) have "w |\<in>| E" by (rule find_void_below)
    with assms(2) show False by simp
  qed
  show "w \<le> find_void E v"
  proof (rule ccontr)
    assume "\<not> w \<le> find_void E v"
    then have "find_void E v < w" by simp
    with find_void_ge have "find_void E v |\<in>| E" by (rule assms(3))
    with find_void_notin show False by blast
  qed
qed

lemma assign_void_ge: "1 \<le> fst (assign_void p E)"
  by (simp add: assign_void_def Let_def find_void_ge)

lemma records_after_void_ge:
  "r \<in> set (records_after ps) \<Longrightarrow> 1 \<le> rec_void r"
  by (induction ps rule: rev_induct) (auto simp: records_after_snoc assign_void_ge)

section \<open>Evaluation at small inputs\<close>

lemma state_after_2:
  "endpoints_after [2] = {|1, 2|}" "records_after [2] = [record_of 1 2 1]"
  using endpoints_after_snoc [of "[]" 2] records_after_snoc [of "[]" 2]
  by (simp_all add: assign_void_def)

lemma state_after_2_3:
  "endpoints_after [2, 3] = {|1, 2, 3|}"
  "records_after [2, 3] = [record_of 1 2 1, record_of 2 3 2]"
  using endpoints_after_snoc [of "[2]" 3] records_after_snoc [of "[2]" 3]
  by (auto simp: assign_void_def state_after_2)

lemma find_void_1_2_3: "find_void {|1, 2, 3|} 1 = 4"
  by (rule find_void_unique) auto

lemma records_after_2_3_5:
  "records_after [2, 3, 5] = [record_of 1 2 1, record_of 2 3 2, record_of 3 5 4]"
  using records_after_snoc [of "[2, 3]" 5]
  by (simp add: assign_void_def state_after_2_3 find_void_1_2_3)


section \<open>\<^verbatim>\<open>calculate_constant\<close>\<close>

lemma constant_of_eq:
  "1 < p \<Longrightarrow> 0 < s \<Longrightarrow>
   constant_of p s =
     Inr ((real_of_int p / real_of_int s - 1) * ln (real_of_int p) * ln (ln (real_of_int p)))"
  by (simp add: constant_of_def py_log_def py_truediv_def)







section \<open>Integer square roots, ranges and primality\<close>

lemma py_isqrt_floor: "0 \<le> x \<Longrightarrow> py_isqrt x = \<lfloor>sqrt (real_of_int x)\<rfloor>"
  by (simp add: py_isqrt_def py_int_def)

lemma py_isqrt_bounds:
  assumes "0 \<le> x"
  shows "0 \<le> py_isqrt x" and "py_isqrt x * py_isqrt x \<le> x"
    and "x < (py_isqrt x + 1) * (py_isqrt x + 1)"
proof -
  define r where "r = \<lfloor>sqrt (real_of_int x)\<rfloor>"
  have r: "py_isqrt x = r" using assms by (simp add: py_isqrt_floor r_def)
  have nonneg: "0 \<le> r" using assms by (simp add: r_def)
  have lo: "real_of_int r \<le> sqrt (real_of_int x)" by (simp add: r_def)
  have hi: "sqrt (real_of_int x) < real_of_int r + 1" by (simp add: r_def)
  have "(real_of_int r)\<^sup>2 \<le> (sqrt (real_of_int x))\<^sup>2"
    using lo nonneg by (intro power_mono) simp_all
  then have "real_of_int (r * r) \<le> real_of_int x"
    using assms by (simp add: power2_eq_square)
  then have le: "r * r \<le> x" by linarith
  have "(sqrt (real_of_int x))\<^sup>2 < (real_of_int r + 1)\<^sup>2"
    using hi assms by (intro power_strict_mono) simp_all
  then have "real_of_int x < real_of_int ((r + 1) * (r + 1))"
    using assms by (simp add: power2_eq_square)
  then have less: "x < (r + 1) * (r + 1)" by linarith
  show "0 \<le> py_isqrt x" "py_isqrt x * py_isqrt x \<le> x"
    "x < (py_isqrt x + 1) * (py_isqrt x + 1)"
    using r nonneg le less by simp_all
qed

lemma le_py_isqrt:
  assumes "0 \<le> d" and "d * d \<le> x"
  shows "d \<le> py_isqrt x"
proof (rule ccontr)
  assume "\<not> d \<le> py_isqrt x"
  then have less: "py_isqrt x + 1 \<le> d" by simp
  have x: "0 \<le> x" using assms by (smt (verit) zero_le_square)
  have "0 \<le> py_isqrt x + 1" using py_isqrt_bounds(1) [OF x] by simp
  then have "(py_isqrt x + 1) * (py_isqrt x + 1) \<le> d * d"
    using less by (intro mult_mono) simp_all
  with py_isqrt_bounds(3) [OF x] assms(2) show False by simp
qed

lemma py_isqrt_eqI:
  assumes "0 \<le> r" and "r * r \<le> x" and "x < (r + 1) * (r + 1)"
  shows "py_isqrt x = r"
proof (rule antisym)
  show "r \<le> py_isqrt x" using assms(1,2) by (rule le_py_isqrt)
  have x: "0 \<le> x" using assms by (smt (verit) zero_le_square)
  show "py_isqrt x \<le> r"
  proof (rule ccontr)
    assume "\<not> py_isqrt x \<le> r"
    then have "r + 1 \<le> py_isqrt x" by simp
    then have "(r + 1) * (r + 1) \<le> py_isqrt x * py_isqrt x"
      using assms(1) by (intro mult_mono) simp_all
    with py_isqrt_bounds(2) [OF x] assms(3) show False by simp
  qed
qed

lemma set_py_range3:
  assumes "0 < s"
  shows "set (py_range3 a b s) = {x. a \<le> x \<and> x < b \<and> s dvd (x - a)}"
proof -
  define n where "n = b - a + s - 1"
  define q where "q = n div s"
  have n: "n = q * s + n mod s" by (simp add: q_def)
  have r: "0 \<le> n mod s" "n mod s < s" using assms by simp_all
  show ?thesis
  proof (intro set_eqI iffI)
    fix x
    assume "x \<in> set (py_range3 a b s)"
    then obtain t where t: "t < nat q" and x: "x = a + int t * s"
      by (auto simp: py_range3_def n_def q_def)
    from t have "int t + 1 \<le> q" by linarith
    then have "(int t + 1) * s \<le> q * s"
      using assms by (intro mult_right_mono) simp_all
    then have "int t * s + s \<le> n" using n r by (simp add: algebra_simps)
    then have "x < b" using x by (simp add: n_def)
    moreover have "0 \<le> int t * s" using assms by simp
    then have "a \<le> x" using x by simp
    moreover have "s dvd (x - a)" using x by simp
    ultimately show "x \<in> {x. a \<le> x \<and> x < b \<and> s dvd (x - a)}" by simp
  next
    fix x
    assume "x \<in> {x. a \<le> x \<and> x < b \<and> s dvd (x - a)}"
    then have ax: "a \<le> x" and xb: "x < b" and dv: "s dvd (x - a)" by simp_all
    from dv obtain k where k: "x - a = s * k" by (auto simp: dvd_def)
    have k0: "0 \<le> k"
    proof (rule ccontr)
      assume "\<not> 0 \<le> k"
      then have "k \<le> - 1" by simp
      then have "s * k \<le> s * (- 1)" using assms by (intro mult_left_mono) simp_all
      with k ax assms show False by simp
    qed
    have "k * s + s \<le> n" using k xb by (simp add: n_def algebra_simps)
    then have "k * s < q * s" using n r by linarith
    then have "k < q" using assms by (simp add: mult_less_cancel_right)
    then have "nat k \<in> set [0..<nat q]" using k0 by simp
    moreover have "x = a + int (nat k) * s" using k k0 by (simp add: algebra_simps)
    ultimately have "x \<in> (\<lambda>t. a + int t * s) ` set [0..<nat q]"
      by (rule rev_image_eqI)
    then show "x \<in> set (py_range3 a b s)"
      by (simp add: py_range3_def n_def q_def)
  qed
qed

lemma is_prime_sqrt:
  "is_prime m \<longleftrightarrow> 2 \<le> m \<and> \<not> (\<exists>d. 2 \<le> d \<and> d * d \<le> m \<and> d dvd m)"
proof
  assume pm: "is_prime m"
  have "\<not> (2 \<le> d \<and> d * d \<le> m \<and> d dvd m)" for d
  proof
    assume d: "2 \<le> d \<and> d * d \<le> m \<and> d dvd m"
    then have "2 * d \<le> d * d" by (intro mult_right_mono) simp_all
    with d have "d < m" by linarith
    with d have "d \<in> {2..<m}" by simp
    with pm d show False by (auto simp: is_prime_def)
  qed
  with pm show "2 \<le> m \<and> \<not> (\<exists>d. 2 \<le> d \<and> d * d \<le> m \<and> d dvd m)"
    by (auto simp: is_prime_def)
next
  assume h: "2 \<le> m \<and> \<not> (\<exists>d. 2 \<le> d \<and> d * d \<le> m \<and> d dvd m)"
  have "\<not> d dvd m" if d: "d \<in> {2..<m}" for d
  proof
    assume "d dvd m"
    then obtain e where e: "m = d * e" by (auto simp: dvd_def)
    have d2: "2 \<le> d" "d < m" using d by simp_all
    have e2: "2 \<le> e"
    proof (rule ccontr)
      assume "\<not> 2 \<le> e"
      then have "e \<le> 1" by simp
      then have "d * e \<le> d * 1" using d2 by (intro mult_left_mono) simp_all
      with e d2 show False by simp
    qed
    show False
    proof (cases "d \<le> e")
      case True
      then have "d * d \<le> d * e" using d2 by (intro mult_left_mono) simp_all
      then have "d * d \<le> m" using e by simp
      with \<open>d dvd m\<close> d2 h show False by blast
    next
      case False
      then have "e * e \<le> d * e" using e2 by (intro mult_right_mono) simp_all
      then have "e * e \<le> m" using e by simp
      moreover have "e dvd m" using e by simp
      ultimately show False using e2 h by blast
    qed
  qed
  with h show "is_prime m" by (simp add: is_prime_def)
qed

lemma is_prime_code:
  "is_prime p \<longleftrightarrow> 1 < p \<and> list_all (\<lambda>d. \<not> d dvd p) [2..p - 1]"
  by (auto simp: is_prime_def list_all_iff)

lemma is_prime_ge_2: "is_prime p \<Longrightarrow> 2 \<le> p"
  by (simp add: is_prime_def)

section \<open>The sieve\<close>

lemma fold_clear_length [simp]:
  "length (fold (\<lambda>j fl. fl[nat j := False]) js fl) = length fl"
  by (induction js arbitrary: fl) simp_all

lemma nth_clear: "m < length fl \<Longrightarrow> fl[i := False] ! m = (fl ! m \<and> i \<noteq> m)"
  by (cases "i < length fl") (auto simp: nth_list_update)

lemma fold_clear_nth:
  "m < length fl \<Longrightarrow>
   fold (\<lambda>j fl. fl[nat j := False]) js fl ! m = (fl ! m \<and> m \<notin> nat ` set js)"
  by (induction js arbitrary: fl) (auto simp: nth_clear)

lemma mark_multiples_length [simp]: "length (mark_multiples limit i flags) = length flags"
  by (simp add: mark_multiples_def)

lemma mark_multiples_nth:
  assumes "0 < i" and "m < length flags"
  shows "mark_multiples limit i flags ! m =
           (flags ! m \<and> \<not> (i * i \<le> int m \<and> int m \<le> limit \<and> i dvd int m))"
proof -
  have "m \<in> nat ` set (py_range3 (i * i) (limit + 1) i) \<longleftrightarrow>
          i * i \<le> int m \<and> int m \<le> limit \<and> i dvd int m"
  proof
    assume "m \<in> nat ` set (py_range3 (i * i) (limit + 1) i)"
    then obtain x where x: "i * i \<le> x" "x < limit + 1" "i dvd (x - i * i)" and m: "m = nat x"
      using assms(1) by (auto simp: set_py_range3)
    have "0 \<le> i * i" by simp
    with x have "0 \<le> x" by linarith
    with m have "int m = x" by simp
    moreover from x(3) have "i dvd x" by (simp add: dvd_diff_left_iff)
    ultimately show "i * i \<le> int m \<and> int m \<le> limit \<and> i dvd int m"
      using x by simp
  next
    assume h: "i * i \<le> int m \<and> int m \<le> limit \<and> i dvd int m"
    then have "int m \<in> set (py_range3 (i * i) (limit + 1) i)"
      using assms(1) by (simp add: set_py_range3)
    then have "nat (int m) \<in> nat ` set (py_range3 (i * i) (limit + 1) i)"
      by (rule imageI)
    then show "m \<in> nat ` set (py_range3 (i * i) (limit + 1) i)" by simp
  qed
  then show ?thesis
    using assms(2) by (simp add: mark_multiples_def fold_clear_nth)
qed

lemma sieved_initial:
  assumes "2 \<le> limit"
  shows "sieved limit 1 ((replicate (nat (limit + 1)) True)[0 := False, 1 := False])"
proof -
  have "((replicate (nat (limit + 1)) True)[0 := False, 1 := False]) ! m = (2 \<le> int m)"
    if "int m \<le> limit" for m
  proof -
    have "m < nat (limit + 1)" using that by linarith
    then show ?thesis
      by (cases "m = 0"; cases "m = 1") (simp_all add: nth_list_update)
  qed
  then show ?thesis by (simp add: sieved_def)
qed

lemma sieved_step:
  assumes inv: "sieved limit r flags" and r: "1 \<le> r" "r + 1 \<le> limit"
  shows "sieved limit (r + 1) (sieve_step limit (r + 1) flags)"
proof -
  define i where "i = r + 1"
  have i: "2 \<le> i" "i \<le> limit" "int (nat i) = i" using r by (simp_all add: i_def)
  have len: "length flags = nat (limit + 1)" using inv by (simp add: sieved_def)
  have at: "flags ! m = (2 \<le> int m \<and> \<not> (\<exists>d. 2 \<le> d \<and> d \<le> r \<and> d * d \<le> int m \<and> d dvd int m))"
    if "int m \<le> limit" for m
    using inv that by (simp add: sieved_def)
  have le_split: "d \<le> i \<longleftrightarrow> d \<le> r \<or> d = i" for d
    by (auto simp: i_def)
  show ?thesis
  proof (cases "flags ! nat i")
    case True
    have "mark_multiples limit i flags ! m =
            (2 \<le> int m \<and> \<not> (\<exists>d. 2 \<le> d \<and> d \<le> i \<and> d * d \<le> int m \<and> d dvd int m))"
      if m: "int m \<le> limit" for m
    proof -
      have "m < length flags" using m len by linarith
      then have "mark_multiples limit i flags ! m =
          (flags ! m \<and> \<not> (i * i \<le> int m \<and> int m \<le> limit \<and> i dvd int m))"
        using i by (intro mark_multiples_nth) simp_all
      then show ?thesis
        using at [OF m] m i(1) by (auto simp: le_split)
    qed
    with True len show ?thesis
      by (simp add: sieved_def sieve_step_def i_def [symmetric])
  next
    case False
    have "int (nat i) \<le> limit" using i by simp
    from at [OF this] False i obtain d0 where
      d0: "2 \<le> d0" "d0 \<le> r" "d0 * d0 \<le> i" "d0 dvd i"
      by auto
    have "flags ! m =
            (2 \<le> int m \<and> \<not> (\<exists>d. 2 \<le> d \<and> d \<le> i \<and> d * d \<le> int m \<and> d dvd int m))"
      if m: "int m \<le> limit" for m
    proof -
      have "\<exists>d. 2 \<le> d \<and> d \<le> r \<and> d * d \<le> int m \<and> d dvd int m"
        if "i * i \<le> int m" and "i dvd int m"
      proof -
        have "i \<le> i * i" using i(1) by (smt (verit) mult_le_cancel_left1)
        with that d0 have "d0 * d0 \<le> int m" by linarith
        moreover have "d0 dvd int m" using d0(4) that(2) by (rule dvd_trans)
        ultimately show ?thesis using d0 by blast
      qed
      then show ?thesis
        using at [OF m] i(1) by (auto simp: le_split)
    qed
    with False len show ?thesis
      by (simp add: sieved_def sieve_step_def i_def [symmetric])
  qed
qed

lemma sieved_fold:
  assumes "2 \<le> limit" and "1 \<le> r" and "r \<le> limit"
  shows "sieved limit r
     (fold (sieve_step limit) [2..r] ((replicate (nat (limit + 1)) True)[0 := False, 1 := False]))"
  using assms(2,3)
proof (induction r rule: int_ge_induct)
  case base
  then show ?case using sieved_initial [OF assms(1)] by simp
next
  case (step r)
  have "[2..r + 1] = [2..r] @ [r + 1]"
    using step.hyps upto_rec2 [of 2 "r + 1"] by simp
  then show ?case
    using step sieved_step by simp
qed

lemma sieve_of_eratosthenes_eq: "sieve_of_eratosthenes limit = filter is_prime [2..limit]"
proof (cases "limit < 2")
  case True
  then show ?thesis by (simp add: sieve_of_eratosthenes_def)
next
  case False
  then have limit: "2 \<le> limit" by simp
  define r where "r = py_isqrt limit"
  define flags where "flags =
    fold (sieve_step limit) [2..r] ((replicate (nat (limit + 1)) True)[0 := False, 1 := False])"
  have r1: "1 \<le> r" unfolding r_def using limit by (intro le_py_isqrt) simp_all
  have "r * r \<le> limit" unfolding r_def using limit by (intro py_isqrt_bounds) simp
  moreover have "r \<le> r * r" using r1 by (smt (verit) mult_le_cancel_left1)
  ultimately have r2: "r \<le> limit" by linarith
  have inv: "sieved limit r flags"
    unfolding flags_def using limit r1 r2 by (rule sieved_fold)
  have "flags ! nat i = is_prime i" if i: "i \<in> set [2..limit]" for i
  proof -
    have i2: "2 \<le> i" "i \<le> limit" "int (nat i) = i" using i by simp_all
    then have "int (nat i) \<le> limit" by simp
    with inv have "flags ! nat i =
        (2 \<le> int (nat i) \<and>
         \<not> (\<exists>d. 2 \<le> d \<and> d \<le> r \<and> d * d \<le> int (nat i) \<and> d dvd int (nat i)))"
      unfolding sieved_def by blast
    then have "flags ! nat i =
        (2 \<le> i \<and> \<not> (\<exists>d. 2 \<le> d \<and> d \<le> r \<and> d * d \<le> i \<and> d dvd i))"
      by (simp only: i2(3))
    moreover have "d \<le> r" if "2 \<le> d" "d * d \<le> i" for d
      unfolding r_def using that i2 by (intro le_py_isqrt) simp_all
    ultimately show ?thesis
      unfolding is_prime_sqrt by blast
  qed
  then have "filter (\<lambda>i. flags ! nat i) [2..limit] = filter is_prime [2..limit]"
    by (intro filter_cong) simp_all
  then show ?thesis
    using limit by (simp add: sieve_of_eratosthenes_def Let_def flags_def r_def)
qed

section \<open>There are primes beyond every bound\<close>

lemma prime_factor: "2 \<le> m \<Longrightarrow> \<exists>p. is_prime p \<and> p dvd m"
proof (induction "nat m" arbitrary: m rule: less_induct)
  case less
  show ?case
  proof (cases "is_prime m")
    case True
    then show ?thesis by auto
  next
    case False
    with less.prems obtain d where d: "d \<in> {2..<m}" "d dvd m"
      by (auto simp: is_prime_def)
    then have "nat d < nat m" "2 \<le> d" by simp_all
    then obtain p where "is_prime p" "p dvd d"
      using less.hyps by blast
    with d(2) show ?thesis
      by (meson dvd_trans)
  qed
qed

lemma prime_above: "\<exists>p. is_prime p \<and> n < p"
proof -
  define m where "m = int (fact (nat n)) + 1"
  have "1 \<le> int (fact (nat n))"
    by (simp add: Suc_le_eq)
  then have "2 \<le> m" by (simp add: m_def)
  then obtain p where p: "is_prime p" "p dvd m"
    using prime_factor by blast
  have "n < p"
  proof (rule ccontr)
    assume "\<not> n < p"
    then have le: "p \<le> n" by simp
    have p2: "2 \<le> p" using p(1) by (rule is_prime_ge_2)
    then have "1 \<le> nat p" "nat p \<le> nat n" using le by simp_all
    then have "nat p dvd fact (nat n)" by (rule dvd_fact)
    then have "int (nat p) dvd int (fact (nat n))" by (simp only: int_dvd_int_iff)
    then have "p dvd int (fact (nat n))" using p2 by simp
    with p(2) have "p dvd 1" unfolding m_def by (simp add: dvd_add_right_iff)
    with p2 show False by simp
  qed
  with p(1) show ?thesis by blast
qed

lemma filter_upto_prefix:
  assumes "L \<le> L'"
  shows "\<exists>ys. filter P [a..L'] = filter P [a..L] @ ys"
proof (cases "a \<le> L")
  case True
  then have "[a..L'] = [a..L] @ [L + 1..L']" using assms by (rule upto_split2)
  then show ?thesis by simp
next
  case False
  then show ?thesis by simp
qed

lemma length_filter_upto_mono:
  "L \<le> L' \<Longrightarrow> length (filter P [a..L]) \<le> length (filter P [a..L'])"
  using filter_upto_prefix [of L L' P a] by auto

lemma primes_unbounded: "\<exists>L. 2 \<le> L \<and> n \<le> length (filter is_prime [2..L])"
proof (induction n)
  case 0
  show ?case by (intro exI [of _ 2]) simp
next
  case (Suc n)
  then obtain L where L: "2 \<le> L" "n \<le> length (filter is_prime [2..L])" by blast
  obtain p where p: "is_prime p" "L < p" using prime_above by blast
  have "[2..p] = [2..L] @ [L + 1..p]" using L(1) p(2) by (intro upto_split2) simp_all
  moreover have "p \<in> set (filter is_prime [L + 1..p])" using p by simp
  then have "1 \<le> length (filter is_prime [L + 1..p])"
    by (metis One_nat_def Suc_leI length_pos_if_in_set)
  ultimately have "Suc n \<le> length (filter is_prime [2..p])" using L(2) by simp
  moreover have "2 \<le> p" using L(1) p(2) by simp
  ultimately show ?case by blast
qed

section \<open>\<^verbatim>\<open>generate_primes\<close> returns\<close>

lemma py_int_times_1_5: "0 \<le> limit \<Longrightarrow> py_int (real_of_int limit * 1.5) = (3 * limit) div 2"
proof -
  assume "0 \<le> limit"
  have "real_of_int limit * 1.5 = real_of_int (3 * limit) / real_of_int 2" by simp
  then have "\<lfloor>real_of_int limit * 1.5\<rfloor> = (3 * limit) div 2"
    by (simp only: floor_divide_of_int_eq)
  with \<open>0 \<le> limit\<close> show ?thesis by (simp add: py_int_def)
qed

lemma sieve_until_returns:
  assumes "2 \<le> limit"
  shows "\<exists>L. limit \<le> L \<and>
              sieve_until n limit (sieve_of_eratosthenes limit) = Some (sieve_of_eratosthenes L) \<and>
              n \<le> int (length (sieve_of_eratosthenes L))"
proof -
  obtain B where B: "nat n \<le> length (filter is_prime [2..B])"
    using primes_unbounded by blast
  show ?thesis
    using assms
  proof (induction "nat (B - limit)" arbitrary: limit rule: less_induct)
    case less
    show ?case
    proof (cases "int (length (sieve_of_eratosthenes limit)) < n")
      case False
      then have "sieve_until n limit (sieve_of_eratosthenes limit) =
                   Some (sieve_of_eratosthenes limit)"
        by (subst sieve_until.simps) simp
      with False show ?thesis by auto
    next
      case True
      define limit' where "limit' = py_int (real_of_int limit * 1.5)"
      have limit': "limit' = (3 * limit) div 2"
        unfolding limit'_def using less.prems by (intro py_int_times_1_5) simp
      have gt: "limit < limit'" using less.prems limit' by simp
      have "limit < B"
      proof (rule ccontr)
        assume "\<not> limit < B"
        then have "length (filter is_prime [2..B]) \<le> length (filter is_prime [2..limit])"
          by (intro length_filter_upto_mono) simp
        with B True show False by (simp add: sieve_of_eratosthenes_eq)
      qed
      with gt have "nat (B - limit') < nat (B - limit)" by simp
      moreover have "2 \<le> limit'" using gt less.prems by simp
      ultimately obtain L where L: "limit' \<le> L"
        "sieve_until n limit' (sieve_of_eratosthenes limit') = Some (sieve_of_eratosthenes L)"
        "n \<le> int (length (sieve_of_eratosthenes L))"
        using less.hyps by blast
      have "sieve_until n limit (sieve_of_eratosthenes limit) =
              sieve_until n limit' (sieve_of_eratosthenes limit')"
        using True by (subst sieve_until.simps) (simp add: limit'_def)
      with L gt show ?thesis by (intro exI [of _ L]) simp
    qed
  qed
qed

lemma initial_limit_ge: "2 \<le> initial_limit n"
proof (cases "n < 6")
  case True
  then show ?thesis by (simp add: initial_limit_def)
next
  case False
  then have n: "6 \<le> real_of_int n" by simp
  have "exp (1::real) \<le> 3" by (rule exp_le)
  with n have "exp 1 \<le> real_of_int n" by linarith
  then have "ln (exp 1) \<le> ln (real_of_int n)" by (subst ln_le_cancel_iff) (use n in simp_all)
  then have l1: "1 \<le> ln (real_of_int n)" by simp
  then have "ln 1 \<le> ln (ln (real_of_int n))" by (subst ln_le_cancel_iff) simp_all
  then have l2: "0 \<le> ln (ln (real_of_int n))" by simp
  have "2 \<le> ln (real_of_int n) + ln (ln (real_of_int n)) + 2" using l1 l2 by simp
  then have "1 * 2 \<le> real_of_int n * (ln (real_of_int n) + ln (ln (real_of_int n)) + 2)"
    using n by (intro mult_mono) simp_all
  then have "2 \<le> \<lfloor>real_of_int n * (ln (real_of_int n) + ln (ln (real_of_int n)) + 2)\<rfloor>"
    by (simp add: le_floor_iff)
  moreover have "0 \<le> real_of_int n * (ln (real_of_int n) + ln (ln (real_of_int n)) + 2)"
    using n l1 l2 by simp
  ultimately show ?thesis using False by (simp add: initial_limit_def py_int_def)
qed

lemma generate_primes_eq:
  assumes "0 < n"
  shows "\<exists>L. nat n \<le> length (filter is_prime [2..L]) \<and>
             generate_primes n = Some (take (nat n) (filter is_prime [2..L]))"
proof -
  obtain L where
    "sieve_until n (initial_limit n) (sieve_of_eratosthenes (initial_limit n)) =
       Some (sieve_of_eratosthenes L)"
    "n \<le> int (length (sieve_of_eratosthenes L))"
    using sieve_until_returns [OF initial_limit_ge] by blast
  then show ?thesis
    using assms by (intro exI [of _ L]) (simp add: generate_primes_def sieve_of_eratosthenes_eq)
qed

lemma generate_primes_nonpos: "n \<le> 0 \<Longrightarrow> generate_primes n = Some []"
  by (simp add: generate_primes_def)

section \<open>Lists of the first numbers with a property\<close>

lemma sorted_wrt_less_upto: "sorted_wrt (<) [a..b]"
  by (simp add: strict_sorted_iff)

lemma first_of_filter_upto:
  assumes "\<And>q. P q \<Longrightarrow> a \<le> q"
  shows "first_of P (filter P [a..L])"
  unfolding first_of_def
proof (intro conjI ballI allI impI)
  show "sorted_wrt (<) (filter P [a..L])"
    by (intro sorted_wrt_filter sorted_wrt_less_upto)
next
  fix x assume "x \<in> set (filter P [a..L])"
  then show "P x" by simp
next
  fix x q
  assume "x \<in> set (filter P [a..L])" and "P q \<and> q < x"
  then show "q \<in> set (filter P [a..L])"
    using assms [of q] by simp
qed

lemma first_of_take:
  assumes "first_of P xs"
  shows "first_of P (take k xs)"
  unfolding first_of_def
proof (intro conjI ballI allI impI)
  show "sorted_wrt (<) (take k xs)"
    using assms by (simp add: first_of_def sorted_wrt_take)
next
  fix x assume "x \<in> set (take k xs)"
  then have "x \<in> set xs" by (rule in_set_takeD)
  with assms show "P x" by (simp add: first_of_def)
next
  fix x q
  assume x: "x \<in> set (take k xs)" and q: "P q \<and> q < x"
  from x have "x \<in> set xs" by (rule in_set_takeD)
  with assms q have "q \<in> set xs" unfolding first_of_def by blast
  then have "q \<in> set (take k xs) \<or> q \<in> set (drop k xs)"
    by (metis Un_iff append_take_drop_id set_append)
  moreover have "sorted_wrt (<) (take k xs @ drop k xs)"
    using assms by (simp add: first_of_def)
  then have "\<forall>a \<in> set (take k xs). \<forall>b \<in> set (drop k xs). a < b"
    unfolding sorted_wrt_append by blast
  with x q have "q \<notin> set (drop k xs)" by fastforce
  ultimately show "q \<in> set (take k xs)" by blast
qed

lemma first_of_subset:
  assumes xs: "first_of P xs" and ys: "first_of P ys" and len: "length xs = length ys"
  shows "set xs \<subseteq> set ys"
proof
  fix x assume x: "x \<in> set xs"
  show "x \<in> set ys"
  proof (rule ccontr)
    assume nx: "x \<notin> set ys"
    have Px: "P x" using xs x by (simp add: first_of_def)
    have "y \<in> set xs - {x}" if y: "y \<in> set ys" for y
    proof -
      have "\<not> x < y" using ys y Px nx unfolding first_of_def by blast
      moreover have "y \<noteq> x" using y nx by blast
      ultimately have "y < x" by simp
      moreover have "P y" using ys y by (simp add: first_of_def)
      ultimately have "y \<in> set xs" using xs x unfolding first_of_def by blast
      with \<open>y \<noteq> x\<close> show ?thesis by simp
    qed
    then have "set ys \<subseteq> set xs - {x}" by blast
    then have "card (set ys) \<le> card (set xs - {x})"
      by (intro card_mono) simp_all
    also have "\<dots> < card (set xs)"
      using x by (intro card_Diff1_less) simp_all
    finally have "card (set ys) < card (set xs)" .
    moreover have "distinct xs" "distinct ys"
      using xs ys by (simp_all add: first_of_def strict_sorted_iff)
    ultimately show False
      using len by (simp add: distinct_card)
  qed
qed

lemma first_of_unique:
  assumes "first_of P xs" and "first_of P ys" and "length xs = length ys"
  shows "xs = ys"
proof -
  have "set xs = set ys"
    using first_of_subset [OF assms] first_of_subset [OF assms(2,1)] assms(3) by auto
  moreover have "sorted xs" "distinct xs" "sorted ys" "distinct ys"
    using assms by (simp_all add: first_of_def strict_sorted_iff)
  ultimately show ?thesis
    by (intro sorted_distinct_set_unique)
qed

lemma first_of_primes_upto: "first_of is_prime (filter is_prime [2..L])"
  by (rule first_of_filter_upto) (rule is_prime_ge_2)

lemma generate_primes_first_of:
  "\<exists>ps. generate_primes n = Some ps \<and> length ps = nat n \<and> first_of is_prime ps"
proof (cases "0 < n")
  case True
  then obtain L where "nat n \<le> length (filter is_prime [2..L])"
    "generate_primes n = Some (take (nat n) (filter is_prime [2..L]))"
    using generate_primes_eq by blast
  then show ?thesis
    using first_of_take [OF first_of_primes_upto, of "nat n" L] by simp
next
  case False
  then show ?thesis
    by (simp add: generate_primes_nonpos first_of_def)
qed

lemma generate_primes_upto:
  assumes "length (filter is_prime [2..B]) = nat n"
  shows "generate_primes n = Some (filter is_prime [2..B])"
proof -
  obtain ps where ps: "generate_primes n = Some ps" "length ps = nat n" "first_of is_prime ps"
    using generate_primes_first_of by blast
  have "ps = filter is_prime [2..B]"
    using ps(3) first_of_primes_upto ps(2) assms by (intro first_of_unique) simp_all
  with ps(1) show ?thesis by simp
qed

lemma primes_upto_5: "filter is_prime [2..5] = [2, 3, 5]"
  by code_simp

lemma small_primes: "is_prime 2" "is_prime 3" "\<not> is_prime 4" "is_prime 5"
  by code_simp+

lemma primes_upto_29: "filter is_prime [2..29] = [2, 3, 5, 7, 11, 13, 17, 19, 23, 29]"
  by code_simp

lemma generate_primes_3: "generate_primes 3 = Some [2, 3, 5]"
  using generate_primes_upto [of 5 3] unfolding primes_upto_5 by simp


section \<open>\<^verbatim>\<open>generate_composites\<close>\<close>

lemma trial_division_iff: "trial_division num is \<longleftrightarrow> (\<exists>i \<in> set is. num mod i = 0)"
  by (induction "is") simp_all

lemma is_composite_ge_4: "is_composite c \<Longrightarrow> 4 \<le> c"
  by (simp add: is_composite_def)

lemma check_composite_iff: "check_composite num \<longleftrightarrow> is_composite num"
proof (cases "num \<le> 2")
  case True
  then show ?thesis by (auto simp: check_composite_def is_composite_def)
next
  case False
  then have num: "3 \<le> num" by simp
  show ?thesis
  proof (cases "num mod 2 = 0")
    case True
    then have "2 dvd num" by presburger
    moreover from True num have "4 \<le> num" by presburger
    ultimately have "2 \<le> (2::int) \<and> 2 * 2 \<le> num \<and> 2 dvd num" by simp
    then have "\<not> is_prime num" unfolding is_prime_sqrt by blast
    with \<open>4 \<le> num\<close> have "is_composite num" by (simp add: is_composite_def)
    with True num show ?thesis by (simp add: check_composite_def)
  next
    case odd: False
    have "trial_division num (py_range3 3 (py_isqrt num + 1) 2) \<longleftrightarrow> is_composite num"
    proof
      assume "trial_division num (py_range3 3 (py_isqrt num + 1) 2)"
      then obtain i where i: "3 \<le> i" "i \<le> py_isqrt num" "num mod i = 0"
        by (auto simp: trial_division_iff set_py_range3)
      have "i * i \<le> py_isqrt num * py_isqrt num"
        using i by (intro mult_mono) simp_all
      also have "\<dots> \<le> num" using num by (intro py_isqrt_bounds) simp
      finally have sq: "i * i \<le> num" .
      have "3 * 3 \<le> i * i" using i by (intro mult_mono) simp_all
      with sq have "4 \<le> num" by simp
      moreover have "i dvd num" using i(3) by (simp add: dvd_eq_mod_eq_0)
      then have "\<not> is_prime num" unfolding is_prime_sqrt using i(1) sq by auto
      ultimately show "is_composite num" by (simp add: is_composite_def)
    next
      assume "is_composite num"
      then have "\<not> is_prime num" by (simp add: is_composite_def)
      with num obtain d where d: "2 \<le> d" "d * d \<le> num" "d dvd num"
        unfolding is_prime_sqrt by auto
      have "\<not> 2 dvd d"
      proof
        assume "2 dvd d"
        then have "2 dvd num" using d(3) by (rule dvd_trans)
        with odd show False by presburger
      qed
      with d(1) have d3: "3 \<le> d" "2 dvd (d - 3)" by presburger+
      have "d \<le> py_isqrt num" using d by (intro le_py_isqrt) simp_all
      with d3 have "d \<in> set (py_range3 3 (py_isqrt num + 1) 2)"
        by (simp add: set_py_range3)
      moreover have "num mod d = 0" using d(3) by simp
      ultimately have "\<exists>i \<in> set (py_range3 3 (py_isqrt num + 1) 2). num mod i = 0"
        by (intro bexI [of _ d])
      then show "trial_division num (py_range3 3 (py_isqrt num + 1) 2)"
        by (simp only: trial_division_iff)
    qed
    with odd num show ?thesis by (simp add: check_composite_def)
  qed
qed

lemma composites_loop_eq:
  assumes "4 \<le> num" and "composites = filter is_composite [4..num - 1]"
    and "int (length composites) \<le> n"
  shows "\<exists>M. num - 1 \<le> M \<and> composites_loop n composites num = filter is_composite [4..M] \<and>
             int (length (filter is_composite [4..M])) = n"
  using assms
proof (induction n composites num rule: composites_loop.induct)
  case (1 n composites num)
  show ?case
  proof (cases "int (length composites) < n")
    case True
    define next_composites where
      "next_composites = (if check_composite num then composites @ [num] else composites)"
    have "[4..num] = [4..num - 1] @ [num]" using "1.prems"(1) by (rule upto_rec2)
    then have nc: "next_composites = filter is_composite [4..num + 1 - 1]"
      using "1.prems"(2) by (simp add: next_composites_def check_composite_iff)
    have "int (length next_composites) \<le> n"
      using True by (simp add: next_composites_def)
    then obtain M where M: "num + 1 - 1 \<le> M"
      "composites_loop n next_composites (num + 1) = filter is_composite [4..M]"
      "int (length (filter is_composite [4..M])) = n"
      using "1.IH" [OF True] "1.prems"(1) nc unfolding next_composites_def by fastforce
    have "composites_loop n composites num = composites_loop n next_composites (num + 1)"
      using True by (subst composites_loop.simps) (simp add: next_composites_def)
    with M show ?thesis by (intro exI [of _ M]) simp
  next
    case False
    then have "composites_loop n composites num = composites"
      by (subst composites_loop.simps) simp
    with False "1.prems" show ?thesis by (intro exI [of _ "num - 1"]) simp
  qed
qed

lemma generate_composites_eq:
  assumes "0 < n"
  shows "\<exists>M. generate_composites n = filter is_composite [4..M] \<and>
             int (length (filter is_composite [4..M])) = n"
  using composites_loop_eq [of 4 "[]" n] assms
  by (auto simp: generate_composites_def)

lemma first_of_composites_upto: "first_of is_composite (filter is_composite [4..M])"
  by (rule first_of_filter_upto) (rule is_composite_ge_4)

lemma generate_composites_first_of:
  "length (generate_composites n) = nat n \<and> first_of is_composite (generate_composites n)"
proof (cases "0 < n")
  case True
  then obtain M where "generate_composites n = filter is_composite [4..M]"
    "int (length (filter is_composite [4..M])) = n"
    using generate_composites_eq by blast
  then show ?thesis
    using first_of_composites_upto [of M] by auto
next
  case False
  then show ?thesis by (simp add: generate_composites_def first_of_def)
qed

lemma generate_composites_upto:
  assumes "length (filter is_composite [4..B]) = nat n"
  shows "generate_composites n = filter is_composite [4..B]"
  using generate_composites_first_of [of n] first_of_composites_upto [of B] assms
  by (intro first_of_unique) simp_all

lemma composites_upto_18:
  "filter is_composite [4..18] = [4, 6, 8, 9, 10, 12, 14, 15, 16, 18]"
  by code_simp

lemma composites_upto_8: "filter is_composite [4..8] = [4, 6, 8]"
  by code_simp

lemma small_composites: "is_composite 4" "\<not> is_composite 5" "is_composite 6" "is_composite 8"
  by code_simp+

lemma generate_composites_3: "generate_composites 3 = [4, 6, 8]"
  using generate_composites_upto [of 8 3] unfolding composites_upto_8 by simp

lemma generate_composites_hd:
  assumes "0 < n"
  shows "generate_composites n ! 0 = 4"
proof -
  obtain M where M: "generate_composites n = filter is_composite [4..M]"
    "int (length (filter is_composite [4..M])) = n"
    using generate_composites_eq [OF assms] by blast
  have "4 \<le> M"
  proof (rule ccontr)
    assume "\<not> 4 \<le> M"
    then have "[4..M] = []" by simp
    with M(2) assms show False by simp
  qed
  then have "[4..M] = 4 # [5..M]" by (simp add: upto_rec1)
  with M(1) show ?thesis by (simp add: small_composites)
qed


section \<open>The engine on the primes up to a bound\<close>

lemma filter_upto_same:
  assumes "v \<le> u" and "\<And>c. v < c \<Longrightarrow> c \<le> u \<Longrightarrow> \<not> P c"
  shows "filter P [a..u] = filter P [a..v]"
proof (cases "a \<le> v")
  case True
  then have "[a..u] = [a..v] @ [v + 1..u]" using assms(1) by (rule upto_split2)
  moreover have "filter P [v + 1..u] = []"
    using assms(2) by (auto simp: filter_empty_conv)
  ultimately show ?thesis by simp
next
  case False
  then have "filter P [a..u] = []"
    using assms(2) by (auto simp: filter_empty_conv)
  with False show ?thesis by simp
qed

lemma filter_upto_extend:
  assumes "v < w" and "P w" and "a \<le> w" and "\<And>c. v < c \<Longrightarrow> c < w \<Longrightarrow> \<not> P c"
  shows "filter P [a..w] = filter P [a..v] @ [w]"
proof -
  have "[a..w] = [a..w - 1] @ [w]" using assms(3) by (rule upto_rec2)
  moreover have "filter P [a..w - 1] = filter P [a..v]"
    using assms(1,4) by (intro filter_upto_same) simp_all
  ultimately show ?thesis using assms(2) by simp
qed

lemma assign_void_endpoints:
  "fset (snd (assign_void p E)) = insert (fst (assign_void p E)) (insert p (fset E))"
  by (auto simp: assign_void_def Let_def)

lemma assign_void_search:
  "p \<noteq> 2 \<Longrightarrow> p \<noteq> 3 \<Longrightarrow> fst (assign_void p E) = find_void E 1"
  by (simp add: assign_void_def Let_def)

lemma primes_upto_3: "filter is_prime [2..3] = [2, 3]"
  by code_simp

lemma not_prime_even: "is_prime p \<Longrightarrow> 3 \<le> p \<Longrightarrow> \<not> 2 dvd p"
  by (auto simp: is_prime_def)

lemma even_is_composite: "4 \<le> c \<Longrightarrow> 2 dvd c \<Longrightarrow> is_composite c"
  by (auto simp: is_composite_def is_prime_def)

lemma prime_or_composite: "2 \<le> c \<Longrightarrow> is_prime c \<or> is_composite c"
proof -
  assume c: "2 \<le> c"
  have "is_prime 2" "is_prime 3" by (rule small_primes)+
  moreover have "c = 2 \<or> c = 3 \<or> 4 \<le> c" using c by linarith
  ultimately show ?thesis by (auto simp: is_composite_def)
qed

lemma layered_3: "layered 3 2"
  unfolding layered_def primes_upto_3
  by (auto simp: state_after_2_3)

lemma layered_step:
  assumes inv: "layered L v" and L: "3 \<le> L"
  shows "\<exists>v'. layered (L + 1) v'"
proof (cases "is_prime (L + 1)")
  case False
  have "[2..L + 1] = [2..L] @ [L + 1]" using L upto_rec2 [of 2 "L + 1"] by simp
  with False have "filter is_prime [2..L + 1] = filter is_prime [2..L]" by simp
  with inv have "layered (L + 1) v" by (simp add: layered_def)
  then show ?thesis ..
next
  case True
  define ps where "ps = filter is_prime [2..L]"
  define E where "E = endpoints_after ps"
  define p where "p = L + 1"
  define w where "w = find_void E 1"
  have split: "[2..L + 1] = [2..L] @ [L + 1]" using L upto_rec2 [of 2 "L + 1"] by simp
  with True have ps': "filter is_prime [2..L + 1] = ps @ [p]" by (simp add: ps_def p_def)
  have v: "2 \<le> v" "v \<le> L - 1" using inv by (simp_all add: layered_def)
  have E: "fset E = {1} \<union> set ps \<union> set (filter is_composite [4..v])"
    using inv by (simp add: layered_def E_def ps_def)
  have voids: "map rec_void (records_after ps) = [1, 2] @ filter is_composite [4..v]"
    using inv by (simp add: layered_def ps_def)
  have below_old: "\<forall>r \<in> set (records_after ps). rec_void r < rec_prime r"
    using inv by (simp add: layered_def ps_def)
  have p4: "4 \<le> p" using L by (simp add: p_def)
  then have p23: "p \<noteq> 2" "p \<noteq> 3" by simp_all
  have "\<not> 2 dvd p" using True p4 by (intro not_prime_even) (simp_all add: p_def)
  then have "2 dvd L" unfolding p_def by presburger
  moreover from this L have "4 \<le> L" by presburger
  ultimately have L_comp: "is_composite L" by (intro even_is_composite)
  have in_E: "u |\<in>| E \<longleftrightarrow> u = 1 \<or> (is_prime u \<and> u \<le> L) \<or> (is_composite u \<and> u \<le> v)" for u
    unfolding E ps_def using is_prime_ge_2 [of u] is_composite_ge_4 [of u] by auto
  have w1: "1 \<le> w" unfolding w_def by (rule find_void_ge)
  have w_notin: "w |\<notin>| E" unfolding w_def by (rule find_void_notin)
  have w_below: "u |\<in>| E" if "1 \<le> u" "u < w" for u
    using that unfolding w_def by (rule find_void_below)
  have L_notin: "L |\<notin>| E"
    using L_comp v L unfolding in_E by (auto simp: is_composite_def)
  have wL: "w \<le> L"
  proof (rule ccontr)
    assume "\<not> w \<le> L"
    then have "L |\<in>| E" using L by (intro w_below) simp_all
    with L_notin show False by simp
  qed
  have "w \<noteq> 1" using w_notin unfolding in_E by blast
  with w1 have "2 \<le> w" by simp
  then have "is_prime w \<or> is_composite w" by (rule prime_or_composite)
  moreover have "\<not> is_prime w" using w_notin wL unfolding in_E by blast
  ultimately have w_comp: "is_composite w" by simp
  have vw: "v < w" using w_notin w_comp unfolding in_E by auto
  have gap: "\<not> is_composite c" if "v < c" "c < w" for c
  proof
    assume c: "is_composite c"
    then have "1 \<le> c" by (simp add: is_composite_def)
    then have "c |\<in>| E" using that(2) by (rule w_below)
    with c that(1) show False unfolding in_E by (auto simp: is_composite_def)
  qed
  have comps: "filter is_composite [4..w] = filter is_composite [4..v] @ [w]"
    using vw w_comp is_composite_ge_4 [OF w_comp] gap by (intro filter_upto_extend)
  have void: "fst (assign_void p E) = w"
    using p23 by (simp add: assign_void_search w_def)
  have "fset (endpoints_after (ps @ [p])) = insert w (insert p (fset E))"
    by (simp add: endpoints_after_snoc E_def [symmetric] assign_void_endpoints void)
  then have E': "fset (endpoints_after (ps @ [p])) =
      {1} \<union> set (ps @ [p]) \<union> set (filter is_composite [4..w])"
    unfolding E comps by auto
  have rs': "records_after (ps @ [p]) =
      records_after ps @ [record_of (1 + int (length ps)) p w]"
    by (simp add: records_after_snoc E_def [symmetric] void)
  have "map rec_void (records_after (ps @ [p])) = [1, 2] @ filter is_composite [4..w]"
    unfolding rs' comps using voids by simp
  moreover have "\<forall>r \<in> set (records_after (ps @ [p])). rec_void r < rec_prime r"
    unfolding rs' using below_old wL by (auto simp: p_def)
  moreover have "2 \<le> w" "w \<le> L + 1 - 1" using \<open>2 \<le> w\<close> wL by simp_all
  ultimately have "layered (L + 1) w"
    unfolding layered_def ps' using E' by blast
  then show ?thesis ..
qed

lemma layered_ex: "3 \<le> L \<Longrightarrow> \<exists>v. layered L v"
proof (induction L rule: int_ge_induct)
  case base
  show ?case using layered_3 ..
next
  case (step L)
  then obtain v where "layered L v" by blast
  then show ?case using step.hyps by (rule layered_step)
qed

section \<open>\<^verbatim>\<open>verify_bijection\<close>\<close>

lemma verify_loop_error:
  "\<exists>r \<in> set rs. 3 \<le> rec_k r \<and> length cs \<le> nat (rec_k r - 3) \<Longrightarrow>
   verify_loop cs rs acc = Inl IndexError"
proof (induction rs arbitrary: acc)
  case Nil
  then show ?case by simp
next
  case (Cons r rs)
  obtain m mm where acc: "acc = (m, mm)" by (cases acc)
  show ?case
  proof (cases "3 \<le> rec_k r \<and> length cs \<le> nat (rec_k r - 3)")
    case True
    then show ?thesis by (simp add: acc Let_def)
  next
    case False
    with Cons.prems have "\<exists>r \<in> set rs. 3 \<le> rec_k r \<and> length cs \<le> nat (rec_k r - 3)"
      by auto
    then have "\<And>acc. verify_loop cs rs acc = Inl IndexError" by (rule Cons.IH)
    then show ?thesis by (simp add: acc Let_def)
  qed
qed

lemma verify_loop_ok:
  "\<forall>r \<in> set rs. 3 \<le> rec_k r \<longrightarrow> nat (rec_k r - 3) < length cs \<Longrightarrow>
   verify_loop cs rs (m, mm) =
     Inr (m + int (length (filter (\<lambda>r. 3 \<le> rec_k r \<and> rec_void r = cs ! nat (rec_k r - 3)) rs)),
          mm @ map (\<lambda>r. \<lparr>mm_k = rec_k r, mm_void = rec_void r,
                          mm_expected = cs ! nat (rec_k r - 3)\<rparr>)
                 (filter (\<lambda>r. 3 \<le> rec_k r \<and> rec_void r \<noteq> cs ! nat (rec_k r - 3)) rs))"
proof (induction rs arbitrary: m mm)
  case Nil
  then show ?case by simp
next
  case (Cons r rs)
  then show ?case by (simp add: Let_def)
qed


section \<open>The engine on the output of \<^verbatim>\<open>generate_primes\<close>\<close>

lemma sorted_wrt_le_last:
  fixes xs :: "int list"
  assumes "sorted_wrt (<) xs" and "x \<in> set xs"
  shows "x \<le> last xs"
proof -
  have ne: "xs \<noteq> []" using assms(2) by auto
  then have xs: "xs = butlast xs @ [last xs]" by simp
  then have "sorted_wrt (<) (butlast xs @ [last xs])" using assms(1) by simp
  then have "\<forall>y \<in> set (butlast xs). y < last xs"
    unfolding sorted_wrt_append by simp
  moreover have "x \<in> set (butlast xs) \<or> x = last xs"
    using assms(2) xs by (metis Un_iff empty_iff insert_iff list.set(1,2) set_append)
  ultimately show ?thesis by auto
qed

lemma first_of_eq_upto:
  assumes first: "first_of P xs" and ne: "xs \<noteq> []" and lower: "\<And>q. P q \<Longrightarrow> a \<le> q"
  shows "xs = filter P [a..last xs]"
proof -
  have srt: "sorted_wrt (<) xs" using first by (simp add: first_of_def)
  have "set xs = set (filter P [a..last xs])"
  proof (intro set_eqI iffI)
    fix x assume x: "x \<in> set xs"
    then have "P x" using first by (simp add: first_of_def)
    moreover have "x \<le> last xs" using srt x by (rule sorted_wrt_le_last)
    ultimately show "x \<in> set (filter P [a..last xs])" using lower [of x] by simp
  next
    fix x assume "x \<in> set (filter P [a..last xs])"
    then have x: "P x" "x \<le> last xs" by simp_all
    have l: "last xs \<in> set xs" using ne by simp
    show "x \<in> set xs"
    proof (cases "x = last xs")
      case True
      with l show ?thesis by simp
    next
      case False
      with x have "P x \<and> x < last xs" by simp
      with first l show ?thesis unfolding first_of_def by blast
    qed
  qed
  moreover have "sorted xs" "distinct xs" using srt by (simp_all add: strict_sorted_iff)
  moreover have "sorted_wrt (<) (filter P [a..last xs])"
    by (intro sorted_wrt_filter sorted_wrt_less_upto)
  then have "sorted (filter P [a..last xs])" "distinct (filter P [a..last xs])"
    by (simp_all add: strict_sorted_iff)
  ultimately show ?thesis by (intro sorted_distinct_set_unique)
qed

lemma generate_primes_upto_ex:
  assumes "1 \<le> n" and "generate_primes n = Some ps"
  shows "\<exists>L. 2 \<le> L \<and> ps = filter is_prime [2..L] \<and> length ps = nat n"
proof -
  have ps: "length ps = nat n" "first_of is_prime ps"
    using generate_primes_first_of [of n] assms(2) by auto
  then have ne: "ps \<noteq> []" using assms(1) by auto
  have eq: "ps = filter is_prime [2..last ps]"
    using ps(2) ne by (rule first_of_eq_upto) (rule is_prime_ge_2)
  have "is_prime (last ps)" using ps(2) ne by (simp add: first_of_def)
  then have "2 \<le> last ps" by (rule is_prime_ge_2)
  with eq ps(1) show ?thesis by blast
qed

lemma generate_primes_upto_ex_3:
  assumes "2 \<le> n" and "generate_primes n = Some ps"
  shows "\<exists>L. 3 \<le> L \<and> ps = filter is_prime [2..L] \<and> length ps = nat n"
proof -
  obtain L where L: "2 \<le> L" "ps = filter is_prime [2..L]" "length ps = nat n"
    using generate_primes_upto_ex [of n ps] assms by auto
  have "3 \<le> L"
  proof (rule ccontr)
    assume "\<not> 3 \<le> L"
    with L(1) have "L = 2" by simp
    then have "length (filter is_prime [2..L]) \<le> 1"
      using length_filter_le [of is_prime "[2..2]"] by simp
    with L(2,3) assms(1) show False by simp
  qed
  with L show ?thesis by blast
qed

lemma primes_upto_2: "filter is_prime [2..2] = [2]"
  by code_simp

lemma generate_primes_1: "generate_primes 1 = Some [2]"
  using generate_primes_upto [of 2 1] unfolding primes_upto_2 by simp

lemma primes_upto_Cons:
  "2 \<le> L \<Longrightarrow> filter is_prime [2..L] = 2 # filter is_prime [3..L]"
  "3 \<le> L \<Longrightarrow> filter is_prime [3..L] = 3 # filter is_prime [4..L]"
  by (simp_all add: upto_rec1 small_primes)

lemma generate_primes_nth:
  assumes "generate_primes n = Some ps"
  shows "0 < length ps \<Longrightarrow> ps ! 0 = 2"
    and "1 < length ps \<Longrightarrow> ps ! 1 = 3"
    and "2 \<le> i \<Longrightarrow> i < length ps \<Longrightarrow> ps ! i \<noteq> 2 \<and> ps ! i \<noteq> 3"
proof -
  have len: "length ps = nat n" and first: "first_of is_prime ps"
    using generate_primes_first_of [of n] assms by auto
  have dist: "distinct ps" using first by (simp add: first_of_def strict_sorted_iff)
  show zero: "ps ! 0 = 2" if "0 < length ps"
  proof -
    have "1 \<le> n" using that len by linarith
    then obtain L where "2 \<le> L" "ps = filter is_prime [2..L]"
      using generate_primes_upto_ex assms by blast
    then show ?thesis by (simp add: primes_upto_Cons)
  qed
  show one: "ps ! 1 = 3" if "1 < length ps"
  proof -
    have "2 \<le> n" using that len by linarith
    then obtain L where "3 \<le> L" "ps = filter is_prime [2..L]"
      using generate_primes_upto_ex_3 assms by blast
    then show ?thesis by (simp add: primes_upto_Cons)
  qed
  show "ps ! i \<noteq> 2 \<and> ps ! i \<noteq> 3" if i: "2 \<le> i" "i < length ps"
  proof -
    have l: "0 < length ps" "1 < length ps" using i by linarith+
    then have "ps ! i \<noteq> ps ! 0" "ps ! i \<noteq> ps ! 1"
      using dist i by (simp_all add: nth_eq_iff_index_eq)
    with zero [OF l(1)] one [OF l(2)] show ?thesis by simp
  qed
qed

lemma generate_primes_layered:
  assumes "2 \<le> n" and "generate_primes n = Some ps"
  shows "map rec_void (records_after ps) = [1, 2] @ take (nat n - 2) (generate_composites n)"
    and "\<forall>r \<in> set (records_after ps). rec_void r < rec_prime r"
proof -
  obtain L where L: "3 \<le> L" "ps = filter is_prime [2..L]" "length ps = nat n"
    using generate_primes_upto_ex_3 assms by blast
  obtain v where v: "layered L v" using layered_ex [OF L(1)] by blast
  then have voids: "map rec_void (records_after ps) = [1, 2] @ filter is_composite [4..v]"
    and below: "\<forall>r \<in> set (records_after ps). rec_void r < rec_prime r"
    by (simp_all add: layered_def L(2))
  from below show "\<forall>r \<in> set (records_after ps). rec_void r < rec_prime r" .
  have "length (map rec_void (records_after ps)) = nat n" using L(3) by simp
  then have len: "length (filter is_composite [4..v]) = nat n - 2"
    unfolding voids by simp
  have cs: "length (generate_composites n) = nat n"
    "first_of is_composite (generate_composites n)"
    using generate_composites_first_of [of n] by simp_all
  have "filter is_composite [4..v] = take (nat n - 2) (generate_composites n)"
    using first_of_composites_upto first_of_take [OF cs(2)] len cs(1)
    by (intro first_of_unique) simp_all
  with voids show
    "map rec_void (records_after ps) = [1, 2] @ take (nat n - 2) (generate_composites n)"
    by simp
qed

lemma generate_primes_void_below:
  assumes "generate_primes n = Some ps" and "r \<in> set (records_after ps)"
  shows "rec_void r < rec_prime r"
proof -
  have len: "length ps = nat n"
    using generate_primes_first_of [of n] assms(1) by auto
  consider "n \<le> 0" | "n = 1" | "2 \<le> n" by linarith
  then show ?thesis
  proof cases
    case 1
    with len assms(2) show ?thesis by simp
  next
    case 2
    with assms(1) have "ps = [2]" by (simp add: generate_primes_1)
    with assms(2) show ?thesis by (simp add: state_after_2)
  next
    case 3
    then show ?thesis using generate_primes_layered(2) assms by blast
  qed
qed

lemma LayerSystem_eq:
  "generate_primes n = Some ps \<Longrightarrow>
   LayerSystem n =
     Some (Inr \<lparr>ls_n_primes = n, ls_primes = ps, ls_composites = generate_composites n,
                ls_results = records_after ps\<rparr>)"
  by (simp add: LayerSystem_def compute_layers_eq)

lemma rec_k_records_after: "i < length ps \<Longrightarrow> rec_k (records_after ps ! i) = int i + 1"
proof -
  assume i: "i < length ps"
  then have "rec_k (records_after ps ! i) = map rec_k (records_after ps) ! i" by simp
  also have "\<dots> = map int [1..<Suc (length ps)] ! i" by (simp only: map_rec_k_records_after)
  also have "\<dots> = int i + 1" using i by (simp add: nth_upt del: upt_Suc)
  finally show ?thesis .
qed

lemma filter_rank_ge_3:
  "length (filter (\<lambda>r. 3 \<le> rec_k r) (records_after ps)) = length ps - 2"
proof -
  have "length (filter (\<lambda>r. 3 \<le> rec_k r) (records_after ps)) =
          length (filter (\<lambda>k. 3 \<le> k) (map rec_k (records_after ps)))"
    by (simp add: filter_map comp_def)
  also have "\<dots> = length (filter (\<lambda>j. 3 \<le> int j) [1..<Suc (length ps)])"
    by (simp add: map_rec_k_records_after filter_map comp_def)
  also have "\<dots> = length ps - 2"
  proof (induction "length ps" arbitrary: ps)
    case 0
    then show ?case by simp
  next
    case (Suc m)
    then obtain qs q where "ps = qs @ [q]" "length qs = m"
      by (metis length_Suc_conv_rev)
    with Suc.hyps(1) [of qs] show ?case by auto
  qed
  finally show ?thesis .
qed

lemma generate_primes_bijection:
  assumes "generate_primes n = Some ps"
    and "r \<in> set (records_after ps)" and "3 \<le> rec_k r"
  shows "nat (rec_k r - 3) < length (generate_composites n) \<and>
         rec_void r = generate_composites n ! nat (rec_k r - 3)"
proof -
  have len: "length ps = nat n"
    using generate_primes_first_of [of n] assms(1) by auto
  obtain i where i: "i < length ps" "r = records_after ps ! i"
    using assms(2) by (auto simp: in_set_conv_nth)
  have k: "rec_k r = int i + 1" using i by (simp add: rec_k_records_after)
  with assms(3) have i2: "2 \<le> i" by simp
  with i(1) len have n2: "2 \<le> n" by linarith
  have "rec_void r = map rec_void (records_after ps) ! i" using i by simp
  also have "\<dots> = ([1, 2] @ take (nat n - 2) (generate_composites n)) ! i"
    using generate_primes_layered(1) [OF n2 assms(1)] by simp
  also have "\<dots> = take (nat n - 2) (generate_composites n) ! (i - 2)"
    using i2 by (simp add: nth_append numeral_2_eq_2)
  also have "\<dots> = generate_composites n ! (i - 2)"
    using i(1) i2 len by simp
  finally have "rec_void r = generate_composites n ! (i - 2)" .
  moreover have "nat (rec_k r - 3) = i - 2" using k i2 by simp
  moreover have "length (generate_composites n) = nat n"
    using generate_composites_first_of [of n] by simp
  ultimately show ?thesis using i(1) len by simp
qed

lemma verify_bijection_exact:
  assumes "3 \<le> n" and "generate_primes n = Some ps"
  shows "verify_bijection (records_after ps) (generate_composites n) =
           Inr \<lparr>vb_total = n - 2, vb_matches = n - 2, vb_accuracy = 100, vb_mismatches = []\<rparr>"
proof -
  define rs where "rs = records_after ps"
  define cs where "cs = generate_composites n"
  have len: "length ps = nat n"
    using generate_primes_first_of [of n] assms(2) by auto
  have all: "nat (rec_k r - 3) < length cs \<and> rec_void r = cs ! nat (rec_k r - 3)"
    if "r \<in> set rs" "3 \<le> rec_k r" for r
    using generate_primes_bijection [OF assms(2)] that unfolding rs_def cs_def by blast
  then have ok: "\<forall>r \<in> set rs. 3 \<le> rec_k r \<longrightarrow> nat (rec_k r - 3) < length cs" by blast
  have m: "filter (\<lambda>r. 3 \<le> rec_k r \<and> rec_void r = cs ! nat (rec_k r - 3)) rs =
           filter (\<lambda>r. 3 \<le> rec_k r) rs"
    using all by (intro filter_cong) auto
  have mm: "filter (\<lambda>r. 3 \<le> rec_k r \<and> rec_void r \<noteq> cs ! nat (rec_k r - 3)) rs = []"
    using all by (auto simp: filter_empty_conv)
  have total: "int (length (filter (\<lambda>r. 3 \<le> rec_k r) rs)) = n - 2"
    unfolding rs_def filter_rank_ge_3 using len assms(1) by simp
  have "verify_loop cs rs (0, []) = Inr (n - 2, [])"
    unfolding verify_loop_ok [OF ok] m mm using total by simp
  moreover have "real_of_int n - 2 \<noteq> 0" using assms(1) by simp
  moreover have "filter (\<lambda>r. 3 \<le> rec_k r) rs \<noteq> []"
    using total assms(1) by auto
  ultimately show ?thesis
    using total assms(1)
    by (simp add: verify_bijection_def rs_def [symmetric] cs_def [symmetric] Let_def
        field_simps)
qed

section \<open>The used endpoints, round by round\<close>

lemma endpoints_after_eq:
  "fset (endpoints_after ps) =
     rec_void ` set (records_after ps) \<union> rec_prime ` set (records_after ps)"
proof (induction ps rule: rev_induct)
  case Nil
  then show ?case by simp
next
  case (snoc p ps)
  then show ?case
    by (auto simp: endpoints_after_snoc records_after_snoc assign_void_endpoints)
qed

lemma records_after_take: "records_after (take i ps) = take i (records_after ps)"
proof (induction ps rule: rev_induct)
  case Nil
  then show ?case by simp
next
  case (snoc p ps)
  show ?case
  proof (cases "i \<le> length ps")
    case True
    with snoc show ?thesis by (simp add: records_after_snoc)
  next
    case False
    then show ?thesis by (simp add: records_after_snoc)
  qed
qed

lemma records_after_nth:
  assumes "i < length ps"
  shows "records_after ps ! i =
           record_of (int i + 1) (ps ! i)
             (fst (assign_void (ps ! i) (endpoints_after (take i ps))))"
proof -
  have "records_after ps ! i = take (Suc i) (records_after ps) ! i" by simp
  also have "\<dots> = records_after (take i ps @ [ps ! i]) ! i"
    using assms by (simp only: records_after_take [symmetric] take_Suc_conv_app_nth)
  also have "\<dots> = record_of (int i + 1) (ps ! i)
             (fst (assign_void (ps ! i) (endpoints_after (take i ps))))"
    using assms by (simp add: records_after_snoc nth_append)
  finally show ?thesis .
qed

lemma endpoints_after_take_Suc:
  assumes "i < length ps"
  shows "fset (endpoints_after (take (Suc i) ps)) =
           insert (rec_void (records_after ps ! i))
             (insert (rec_prime (records_after ps ! i)) (fset (endpoints_after (take i ps))))"
  using assms
  by (simp add: take_Suc_conv_app_nth endpoints_after_snoc assign_void_endpoints
      records_after_nth)

lemma endpoints_after_2_3_5: "endpoints_after [2, 3, 5] = {|1, 2, 3, 4, 5|}"
  using endpoints_after_snoc [of "[2, 3]" 5]
  by (auto simp: assign_void_def state_after_2_3 find_void_1_2_3)

lemma LayerSystem_3:
  "LayerSystem 3 =
     Some (Inr \<lparr>ls_n_primes = 3, ls_primes = [2, 3, 5], ls_composites = [4, 6, 8],
                ls_results = [record_of 1 2 1, record_of 2 3 2, record_of 3 5 4]\<rparr>)"
  using LayerSystem_eq [OF generate_primes_3]
  by (simp add: generate_composites_3 records_after_2_3_5)


section \<open>What \<^verbatim>\<open>calculate_constant\<close> returns\<close>

lemma collect_constants_eq:
  assumes "1 \<le> m"
  shows "collect_constants m rs cs =
     Inr (cs @ map (\<lambda>r. (real_of_int (rec_prime r) / real_of_int (rec_sum r) - 1) *
                        ln (real_of_int (rec_prime r)) * ln (ln (real_of_int (rec_prime r))))
                 (filter (\<lambda>r. m < rec_prime r \<and> 0 < rec_sum r) rs))"
proof (induction rs arbitrary: cs)
  case Nil
  then show ?case by simp
next
  case (Cons r rs)
  show ?case
  proof (cases "m < rec_prime r \<and> 0 < rec_sum r")
    case True
    then have "1 < rec_prime r" "0 < rec_sum r" using assms by simp_all
    then have "constant_of (rec_prime r) (rec_sum r) =
        Inr ((real_of_int (rec_prime r) / real_of_int (rec_sum r) - 1) *
             ln (real_of_int (rec_prime r)) * ln (ln (real_of_int (rec_prime r))))"
      by (rule constant_of_eq)
    with True Cons show ?thesis by (simp add: Let_def)
  next
    case False
    with Cons show ?thesis by (auto simp: Let_def)
  qed
qed

lemma ln_1002: "1 < ln (1002::real)"
proof -
  have "exp (1::real) \<le> 3" by (rule exp_le)
  then have "exp (1::real) < 1002" by simp
  then have "ln (exp (1::real)) < ln 1002" by (subst ln_less_cancel_iff) simp_all
  then show ?thesis by simp
qed

lemma ln_ln_1002: "0 < ln (ln (1002::real))"
  using ln_1002 by (simp add: ln_gt_zero)

lemma le_1000: "(1::int) \<le> 1000"
  by simp

lemma constants_flat:
  "collect_constants 1000 [record_of 1 1002 0] [] = Inr [0]"
  by (subst collect_constants_eq [OF le_1000]) simp

lemma constants_spread:
  "collect_constants 1000
     [record_of 1 1002 501, record_of 2 1002 (- 1002), record_of 3 1002 (- 1002)] [] =
   Inr [ln 1002 * ln (ln 1002), - (ln 1002 * ln (ln 1002) / 2), - (ln 1002 * ln (ln 1002) / 2)]"
  by (subst collect_constants_eq [OF le_1000]) simp

lemma avg_constant_spread:
  "avg_constant [c, - (c / 2), - (c / 2)] = 0"
  by (simp add: avg_constant_def)

lemma std_dev_spread:
  assumes "c \<noteq> 0"
  shows "std_dev [c, - (c / 2), - (c / 2)] \<noteq> 0"
proof -
  have "sum_list (map (\<lambda>x. (x - avg_constant [c, - (c / 2), - (c / 2)])\<^sup>2) [c, - (c / 2), - (c / 2)]) =
          c\<^sup>2 * (3 / 2)"
    unfolding avg_constant_spread by (simp add: power2_eq_square field_simps)
  then have "std_dev [c, - (c / 2), - (c / 2)] = sqrt (c\<^sup>2 / 2)"
    unfolding std_dev_def by simp
  moreover have "0 < c\<^sup>2 / 2" using assms by simp
  ultimately show ?thesis by simp
qed


section \<open>The order of the set does not reach the records\<close>

lemma find_void_ordered_eq: "find_void_ordered store v = find_void (fset_of_list store) v"
proof (induction store v rule: find_void_ordered.induct)
  case (1 store v)
  show ?case
  proof (cases "v \<in> set store")
    case True
    then have "find_void_ordered store v = find_void_ordered store (v + 1)"
      by (subst find_void_ordered.simps) simp
    also have "\<dots> = find_void (fset_of_list store) (v + 1)" using True by (rule 1)
    also have "\<dots> = find_void (fset_of_list store) v"
      using True by (subst (2) find_void.simps) (simp add: fset_of_list.rep_eq)
    finally show ?thesis .
  next
    case False
    then have "find_void_ordered store v = v"
      by (subst find_void_ordered.simps) simp
    moreover have "find_void (fset_of_list store) v = v"
      using False by (subst find_void.simps) (simp add: fset_of_list.rep_eq)
    ultimately show ?thesis by simp
  qed
qed

lemma store_add_members:
  assumes "\<forall>xs. set (layout xs) = set xs"
  shows "fset_of_list (store_add layout x store) = finsert x (fset_of_list store)"
proof -
  have "set (store_add layout x store) = insert x (set store)"
    using assms by (auto simp: store_add_def)
  then have "fset (fset_of_list (store_add layout x store)) = fset (finsert x (fset_of_list store))"
    by (simp add: fset_of_list.rep_eq)
  then show ?thesis by (simp only: fset_inject)
qed

lemma assign_void_ordered_eq:
  assumes "\<forall>xs. set (layout xs) = set xs"
  shows "fst (assign_void_ordered layout p store) = fst (assign_void p (fset_of_list store))"
    and "fset_of_list (snd (assign_void_ordered layout p store)) =
           snd (assign_void p (fset_of_list store))"
  by (auto simp: assign_void_ordered_def assign_void_def Let_def find_void_ordered_eq
      store_add_members [OF assms])

lemma layer_loop_ordered_eq:
  assumes "\<forall>xs. set (layout xs) = set xs"
  shows "\<exists>store' rs'. layer_loop_ordered layout kps (store, rs) = Inr (store', rs') \<and>
           layer_loop kps (fset_of_list store, rs) = Inr (fset_of_list store', rs')"
proof (induction kps arbitrary: store rs)
  case Nil
  then show ?case by simp
next
  case (Cons kp kps)
  obtain k p where kp: "kp = (k, p)" by (cases kp)
  obtain v store1 where a: "assign_void_ordered layout p store = (v, store1)"
    by (cases "assign_void_ordered layout p store")
  have "assign_void p (fset_of_list store) = (v, fset_of_list store1)"
    using assign_void_ordered_eq [OF assms, of p store] a
    by (cases "assign_void p (fset_of_list store)") simp
  with a Cons [of store1 "rs @ [record_of k p v]"] show ?case
    by (simp add: kp make_record_eq)
qed

lemma compute_layers_ordered_eq:
  assumes "\<forall>xs. set (layout xs) = set xs"
  shows "compute_layers_ordered layout primes = compute_layers primes"
proof -
  obtain store' rs' where
    "layer_loop_ordered layout (py_enumerate 1 primes) ([], []) = Inr (store', rs')"
    "layer_loop (py_enumerate 1 primes) (fset_of_list [], []) = Inr (fset_of_list store', rs')"
    using layer_loop_ordered_eq [OF assms] by blast
  then show ?thesis
    by (simp add: compute_layers_ordered_def compute_layers_def compute_layers_state_def)
qed

lemma LayerSystem_ordered_eq:
  assumes "\<forall>xs. set (layout xs) = set xs"
  shows "LayerSystem_ordered layout n = LayerSystem n"
  unfolding LayerSystem_ordered_def LayerSystem_def compute_layers_ordered_eq [OF assms] ..

lemma layouts_differ: "store_add (\<lambda>xs. xs) 5 [1] = [1, 5]" "store_add rev 5 [1] = [5, 1]"
  by (simp_all add: store_add_def)


section \<open>The claims of the specification\<close>

text \<open>
  Claim C2. Every record that the engine produces satisfies the integer identity
  \<open>prime = void + sum\<close>. The engine raises nothing, and the identity holds for every
  input list, in particular for the first \<open>n\<close> primes.
\<close>

theorem compute_layers_prime_eq_void_plus_sum:
  "\<exists>rs. compute_layers primes = Inr rs \<and>
        (\<forall>r \<in> set rs. rec_prime r = rec_void r + rec_sum r)"
proof -
  have "rec_prime r = rec_void r + rec_sum r" if mem: "r \<in> set (records_after primes)" for r
  proof -
    obtain k p v where "r = record_of k p v"
      using mem records_after_shape by blast
    then show ?thesis by simp
  qed
  then show ?thesis
    by (simp add: compute_layers_eq)
qed

theorem compute_layers_prime_eq_void_plus_sum_witness:
  "compute_layers [2, 3, 5] = Inr [record_of 1 2 1, record_of 2 3 2, record_of 3 5 4] \<and>
   rec_prime (record_of 3 5 4) = 5 \<and> rec_void (record_of 3 5 4) = 4 \<and>
   rec_sum (record_of 3 5 4) = 1 \<and>
   rec_prime (record_of 3 5 4) = rec_void (record_of 3 5 4) + rec_sum (record_of 3 5 4)"
  using compute_layers_prime_eq_void_plus_sum [of "[2, 3, 5]"]
  by (simp add: compute_layers_eq records_after_2_3_5)



text \<open>
  Claim C5. For every \<open>n\<close>, \<^verbatim>\<open>generate_primes(n)\<close> returns (the loop that grows the
  bound ends), and what it returns is exactly the first \<open>n\<close> primes in increasing order:
  the result has length \<open>n\<close>, every element is prime, the elements increase strictly,
  and no prime below an element is missing. For \<open>n \<le> 0\<close> the result is empty, and
  \<^verbatim>\<open>generate_primes(10)\<close> is the list \<open>2, 3, 5, 7, 11, 13, 17, 19, 23, 29\<close>.
\<close>

theorem generate_primes_first_n_primes:
  "(\<exists>ps. generate_primes n = Some ps \<and> int (length ps) = max n 0 \<and>
         (\<forall>p \<in> set ps. is_prime p) \<and> sorted_wrt (<) ps \<and>
         (\<forall>p \<in> set ps. \<forall>q. is_prime q \<and> q < p \<longrightarrow> q \<in> set ps)) \<and>
   (n \<le> 0 \<longrightarrow> generate_primes n = Some []) \<and>
   generate_primes 10 = Some [2, 3, 5, 7, 11, 13, 17, 19, 23, 29]"
proof (intro conjI)
  obtain ps where ps: "generate_primes n = Some ps" "length ps = nat n" "first_of is_prime ps"
    using generate_primes_first_of by blast
  from ps(2) have "int (length ps) = max n 0" by simp
  with ps(1,3) show "\<exists>ps. generate_primes n = Some ps \<and> int (length ps) = max n 0 \<and>
         (\<forall>p \<in> set ps. is_prime p) \<and> sorted_wrt (<) ps \<and>
         (\<forall>p \<in> set ps. \<forall>q. is_prime q \<and> q < p \<longrightarrow> q \<in> set ps)"
    unfolding first_of_def by blast
  show "n \<le> 0 \<longrightarrow> generate_primes n = Some []"
    by (simp add: generate_primes_nonpos)
  show "generate_primes 10 = Some [2, 3, 5, 7, 11, 13, 17, 19, 23, 29]"
    using generate_primes_upto [of 29 10] unfolding primes_upto_29 by simp
qed

theorem generate_primes_first_n_primes_witness:
  "generate_primes 3 = Some [2, 3, 5] \<and> int (length [2, 3, 5 :: int]) = max 3 0 \<and>
   is_prime 2 \<and> is_prime 3 \<and> is_prime 5 \<and> \<not> is_prime 4 \<and> sorted_wrt (<) [2, 3, 5 :: int] \<and>
   generate_primes (- 1) = Some []"
  using generate_primes_first_n_primes [of 3] generate_primes_first_n_primes [of "- 1"]
  by (simp add: generate_primes_3 small_primes)

text \<open>
  Claim C6. For every \<open>n\<close>, \<^verbatim>\<open>generate_composites(n)\<close> is the list of the first \<open>n\<close>
  composites (integers from 4 on that are not prime) in increasing order: it has
  length \<open>n\<close>, starts at 4, every element is composite, the elements increase strictly,
  and no composite below an element is missing. For \<open>n \<le> 0\<close> the result is empty, and
  \<^verbatim>\<open>generate_composites(10)\<close> is the list \<open>4, 6, 8, 9, 10, 12, 14, 15, 16, 18\<close>.
\<close>

theorem generate_composites_first_n_composites:
  "int (length (generate_composites n)) = max n 0 \<and>
   (\<forall>c \<in> set (generate_composites n). 4 \<le> c \<and> \<not> is_prime c) \<and>
   sorted_wrt (<) (generate_composites n) \<and>
   (\<forall>c \<in> set (generate_composites n). \<forall>q. 4 \<le> q \<and> \<not> is_prime q \<and> q < c
        \<longrightarrow> q \<in> set (generate_composites n)) \<and>
   (0 < n \<longrightarrow> generate_composites n ! 0 = 4) \<and>
   (n \<le> 0 \<longrightarrow> generate_composites n = []) \<and>
   generate_composites 10 = [4, 6, 8, 9, 10, 12, 14, 15, 16, 18]"
proof (intro conjI)
  have len: "length (generate_composites n) = nat n"
    and first: "first_of is_composite (generate_composites n)"
    using generate_composites_first_of by simp_all
  show "int (length (generate_composites n)) = max n 0" using len by simp
  show "\<forall>c \<in> set (generate_composites n). 4 \<le> c \<and> \<not> is_prime c"
    using first by (simp add: first_of_def is_composite_def)
  show "sorted_wrt (<) (generate_composites n)"
    using first by (simp add: first_of_def)
  show "\<forall>c \<in> set (generate_composites n). \<forall>q. 4 \<le> q \<and> \<not> is_prime q \<and> q < c
        \<longrightarrow> q \<in> set (generate_composites n)"
    using first unfolding first_of_def is_composite_def by blast
  show "0 < n \<longrightarrow> generate_composites n ! 0 = 4"
    by (simp add: generate_composites_hd)
  show "n \<le> 0 \<longrightarrow> generate_composites n = []"
    by (simp add: generate_composites_def)
  show "generate_composites 10 = [4, 6, 8, 9, 10, 12, 14, 15, 16, 18]"
    using generate_composites_upto [of 18 10] unfolding composites_upto_18 by simp
qed

theorem generate_composites_first_n_composites_witness:
  "generate_composites 3 = [4, 6, 8] \<and> int (length [4, 6, 8 :: int]) = max 3 0 \<and>
   \<not> is_prime 4 \<and> \<not> is_prime 6 \<and> \<not> is_prime 8 \<and> is_prime 5 \<and> is_prime 7 \<and>
   sorted_wrt (<) [4, 6, 8 :: int] \<and> [4, 6, 8 :: int] ! 0 = 4 \<and>
   generate_composites (- 1) = []"
proof -
  have "\<not> is_prime 4" "\<not> is_prime 6" "\<not> is_prime 8" "is_prime 5" "is_prime 7"
    by code_simp+
  then show ?thesis
    using generate_composites_first_n_composites [of 3]
      generate_composites_first_n_composites [of "- 1"]
    by (simp add: generate_composites_3)
qed

text \<open>
  Claim C4. \<^verbatim>\<open>verify_bijection\<close> looks at exactly the records of rank \<open>k \<ge> 3\<close> and
  counts a match when the void is the composite at position \<open>k - 3\<close>. It returns the
  number of these records as \<open>total\<close>, the number of matches, the accuracy
  \<open>100 * matches / total\<close> (and 0 when there is no such record), and the list of every
  mismatching rank with its void and the composite expected, in the order of the
  records. The only other outcome is \<^verbatim>\<open>IndexError\<close>, when the list of composites is too
  short for some rank.
\<close>

theorem verify_bijection_report:
  "verify_bijection results composites =
     (if \<exists>r \<in> set results. 3 \<le> rec_k r \<and> length composites \<le> nat (rec_k r - 3)
      then Inl IndexError
      else Inr
        \<lparr>vb_total = int (length (filter (\<lambda>r. 3 \<le> rec_k r) results)),
         vb_matches =
           int (length (filter
                  (\<lambda>r. 3 \<le> rec_k r \<and> rec_void r = composites ! nat (rec_k r - 3)) results)),
         vb_accuracy =
           (if 0 < length (filter (\<lambda>r. 3 \<le> rec_k r) results)
            then 100 *
                 real (length (filter
                    (\<lambda>r. 3 \<le> rec_k r \<and> rec_void r = composites ! nat (rec_k r - 3)) results)) /
                 real (length (filter (\<lambda>r. 3 \<le> rec_k r) results))
            else 0),
         vb_mismatches =
           map (\<lambda>r. \<lparr>mm_k = rec_k r, mm_void = rec_void r,
                      mm_expected = composites ! nat (rec_k r - 3)\<rparr>)
             (filter (\<lambda>r. 3 \<le> rec_k r \<and> rec_void r \<noteq> composites ! nat (rec_k r - 3))
                results)\<rparr>)"
proof (cases "\<exists>r \<in> set results. 3 \<le> rec_k r \<and> length composites \<le> nat (rec_k r - 3)")
  case True
  then have "verify_loop composites results (0, []) = Inl IndexError"
    by (rule verify_loop_error)
  with True show ?thesis by (simp add: verify_bijection_def)
next
  case False
  then have "\<forall>r \<in> set results. 3 \<le> rec_k r \<longrightarrow> nat (rec_k r - 3) < length composites"
    by auto
  from verify_loop_ok [OF this, of 0 "[]"] False show ?thesis
    by (simp add: verify_bijection_def Let_def)
qed

theorem verify_bijection_report_witness:
  "verify_bijection [record_of 2 3 2, record_of 3 5 4, record_of 4 7 7] [4, 6] =
     Inr \<lparr>vb_total = 2, vb_matches = 1, vb_accuracy = 50,
          vb_mismatches = [\<lparr>mm_k = 4, mm_void = 7, mm_expected = 6\<rparr>]\<rparr> \<and>
   verify_bijection [record_of 3 5 4, record_of 4 7 6] [4] = Inl IndexError"
  using verify_bijection_report [of "[record_of 2 3 2, record_of 3 5 4, record_of 4 7 7]" "[4, 6]"]
    verify_bijection_report [of "[record_of 3 5 4, record_of 4 7 6]" "[4]"]
  by simp

text \<open>
  Claim C10. For every \<open>n\<close>, the pipeline returns, and every record built from the
  first \<open>n\<close> primes has \<open>1 \<le> void < prime\<close>; so \<open>sum = prime - void\<close> is positive
  and \<open>ratio\<close> is \<open>prime / sum\<close>, never \<open>None\<close>.
\<close>

theorem void_below_prime_on_primes:
  "\<exists>ls. LayerSystem n = Some (Inr ls) \<and> length (ls_results ls) = nat n \<and>
     (\<forall>r \<in> set (ls_results ls).
        1 \<le> rec_void r \<and> rec_void r < rec_prime r \<and>
        rec_sum r = rec_prime r - rec_void r \<and> 0 < rec_sum r \<and>
        rec_ratio r = Some (real_of_int (rec_prime r) / real_of_int (rec_sum r)))"
proof -
  obtain ps where ps: "generate_primes n = Some ps" "length ps = nat n"
    using generate_primes_first_of by blast
  have "1 \<le> rec_void r \<and> rec_void r < rec_prime r \<and>
        rec_sum r = rec_prime r - rec_void r \<and> 0 < rec_sum r \<and>
        rec_ratio r = Some (real_of_int (rec_prime r) / real_of_int (rec_sum r))"
    if r: "r \<in> set (records_after ps)" for r
  proof -
    obtain k p v where shape: "r = record_of k p v"
      using r records_after_shape by blast
    have "1 \<le> rec_void r" using r by (rule records_after_void_ge)
    moreover have "rec_void r < rec_prime r" using ps(1) r by (rule generate_primes_void_below)
    ultimately show ?thesis using shape by simp
  qed
  then show ?thesis
    using LayerSystem_eq [OF ps(1)] ps(2) by simp
qed

theorem void_below_prime_on_primes_witness:
  "LayerSystem 3 =
     Some (Inr \<lparr>ls_n_primes = 3, ls_primes = [2, 3, 5], ls_composites = [4, 6, 8],
                ls_results = [record_of 1 2 1, record_of 2 3 2, record_of 3 5 4]\<rparr>) \<and>
   rec_void (record_of 3 5 4) = 4 \<and> rec_prime (record_of 3 5 4) = 5 \<and>
   rec_sum (record_of 3 5 4) = 1 \<and> rec_ratio (record_of 3 5 4) = Some 5 \<and>
   rec_ratio (record_of 1 2 1) = Some 2 \<and> rec_ratio (record_of 2 3 2) = Some 3"
  using void_below_prime_on_primes [of 3]
  by (simp add: LayerSystem_3)

text \<open>
  Claim C3. For \<open>n_primes = 1000\<close> the pipeline returns, and \<^verbatim>\<open>verify_bijection\<close> on its
  records and its composites reports 998 records of rank \<open>k \<ge> 3\<close>, 998 matches, the
  accuracy 100 and no mismatch: at every rank \<open>k \<ge> 3\<close> the void is the composite at
  position \<open>k - 3\<close>.
\<close>

theorem bijection_exact_for_1000_primes:
  "\<exists>ls. LayerSystem 1000 = Some (Inr ls) \<and>
     length (ls_primes ls) = 1000 \<and> length (ls_composites ls) = 1000 \<and>
     length (ls_results ls) = 1000 \<and>
     verify_bijection (ls_results ls) (ls_composites ls) =
       Inr \<lparr>vb_total = 998, vb_matches = 998, vb_accuracy = 100, vb_mismatches = []\<rparr> \<and>
     (\<forall>r \<in> set (ls_results ls).
        3 \<le> rec_k r \<longrightarrow> rec_void r = ls_composites ls ! nat (rec_k r - 3))"
proof -
  obtain ps where ps: "generate_primes 1000 = Some ps" "length ps = nat 1000"
    using generate_primes_first_of by blast
  have "verify_bijection (records_after ps) (generate_composites 1000) =
      Inr \<lparr>vb_total = 1000 - 2, vb_matches = 1000 - 2, vb_accuracy = 100, vb_mismatches = []\<rparr>"
    using ps(1) by (intro verify_bijection_exact) simp_all
  moreover have "length (generate_composites 1000) = nat 1000"
    using generate_composites_first_of [of 1000] by simp
  moreover have "\<forall>r \<in> set (records_after ps).
      3 \<le> rec_k r \<longrightarrow> rec_void r = generate_composites 1000 ! nat (rec_k r - 3)"
    using generate_primes_bijection [OF ps(1)] by blast
  ultimately show ?thesis
    using LayerSystem_eq [OF ps(1)] ps(2) by simp
qed

theorem bijection_exact_for_1000_primes_witness:
  "\<exists>ls. LayerSystem 1000 = Some (Inr ls) \<and> 2 < length (ls_results ls) \<and>
     ls_results ls ! 2 \<in> set (ls_results ls) \<and> rec_k (ls_results ls ! 2) = 3 \<and>
     rec_void (ls_results ls ! 2) = ls_composites ls ! 0"
proof -
  obtain ls where ls: "LayerSystem 1000 = Some (Inr ls)" "length (ls_primes ls) = 1000"
    "length (ls_results ls) = 1000"
    "\<forall>r \<in> set (ls_results ls).
        3 \<le> rec_k r \<longrightarrow> rec_void r = ls_composites ls ! nat (rec_k r - 3)"
    using bijection_exact_for_1000_primes by blast
  obtain ps where ps: "generate_primes 1000 = Some ps" "length ps = nat 1000"
    using generate_primes_first_of by blast
  have eq: "ls_results ls = records_after ps"
    using LayerSystem_eq [OF ps(1)] ls(1) by auto
  have k: "rec_k (ls_results ls ! 2) = 3"
    unfolding eq using ps(2) by (simp add: rec_k_records_after)
  have mem: "ls_results ls ! 2 \<in> set (ls_results ls)"
    using ls(3) by (intro nth_mem) simp
  with ls(4) k have "rec_void (ls_results ls ! 2) = ls_composites ls ! 0" by fastforce
  with ls(1,3) k mem show ?thesis by (intro exI [of _ ls]) simp
qed


text \<open>
  Claim C1. On the first \<open>n\<close> primes the engine gives prime 2 the void 1 and prime 3
  the void 2. At every later position \<open>i\<close> (rank \<open>k = i + 1 \<ge> 3\<close>) the set of used
  endpoints before the round holds exactly the voids and primes of the earlier
  records; the void of the round is the smallest positive integer outside that set;
  after the round the set has gained that void and the prime of the round. So the
  void differs from the prime of its own rank and from every void and prime of a
  smaller rank.
\<close>

theorem void_is_least_unused:
  "\<exists>ls. LayerSystem n = Some (Inr ls) \<and>
     (1 \<le> n \<longrightarrow> rec_prime (ls_results ls ! 0) = 2 \<and> rec_void (ls_results ls ! 0) = 1) \<and>
     (2 \<le> n \<longrightarrow> rec_prime (ls_results ls ! 1) = 3 \<and> rec_void (ls_results ls ! 1) = 2) \<and>
     (\<forall>i. 2 \<le> i \<and> i < length (ls_results ls) \<longrightarrow>
        rec_k (ls_results ls ! i) = int i + 1 \<and>
        fset (endpoints_after (take i (ls_primes ls))) =
          rec_void ` set (take i (ls_results ls)) \<union> rec_prime ` set (take i (ls_results ls)) \<and>
        1 \<le> rec_void (ls_results ls ! i) \<and>
        rec_void (ls_results ls ! i) \<notin> fset (endpoints_after (take i (ls_primes ls))) \<and>
        (\<forall>u. 1 \<le> u \<and> u < rec_void (ls_results ls ! i) \<longrightarrow>
             u \<in> fset (endpoints_after (take i (ls_primes ls)))) \<and>
        fset (endpoints_after (take (Suc i) (ls_primes ls))) =
          insert (rec_void (ls_results ls ! i))
            (insert (rec_prime (ls_results ls ! i))
               (fset (endpoints_after (take i (ls_primes ls))))) \<and>
        rec_void (ls_results ls ! i) \<noteq> rec_prime (ls_results ls ! i) \<and>
        (\<forall>j < i. rec_void (ls_results ls ! i) \<noteq> rec_void (ls_results ls ! j) \<and>
                  rec_void (ls_results ls ! i) \<noteq> rec_prime (ls_results ls ! j)))"
proof -
  obtain ps where ps: "generate_primes n = Some ps" "length ps = nat n"
    using generate_primes_first_of by blast
  define rs where "rs = records_after ps"
  have len: "length rs = length ps" by (simp add: rs_def)
  have first: "rec_prime (rs ! 0) = 2 \<and> rec_void (rs ! 0) = 1" if "1 \<le> n"
  proof -
    have l: "0 < length ps" using that ps(2) by linarith
    then have "ps ! 0 = 2" by (rule generate_primes_nth(1) [OF ps(1)])
    then show ?thesis
      unfolding rs_def records_after_nth [OF l] by (simp add: assign_void_def)
  qed
  have second: "rec_prime (rs ! 1) = 3 \<and> rec_void (rs ! 1) = 2" if "2 \<le> n"
  proof -
    have l: "1 < length ps" using that ps(2) by linarith
    then have "ps ! 1 = 3" by (rule generate_primes_nth(2) [OF ps(1)])
    then show ?thesis
      unfolding rs_def records_after_nth [OF l] by (simp add: assign_void_def)
  qed
  have later:
    "rec_k (rs ! i) = int i + 1 \<and>
     fset (endpoints_after (take i ps)) =
       rec_void ` set (take i rs) \<union> rec_prime ` set (take i rs) \<and>
     1 \<le> rec_void (rs ! i) \<and>
     rec_void (rs ! i) \<notin> fset (endpoints_after (take i ps)) \<and>
     (\<forall>u. 1 \<le> u \<and> u < rec_void (rs ! i) \<longrightarrow> u \<in> fset (endpoints_after (take i ps))) \<and>
     fset (endpoints_after (take (Suc i) ps)) =
       insert (rec_void (rs ! i)) (insert (rec_prime (rs ! i)) (fset (endpoints_after (take i ps)))) \<and>
     rec_void (rs ! i) \<noteq> rec_prime (rs ! i) \<and>
     (\<forall>j < i. rec_void (rs ! i) \<noteq> rec_void (rs ! j) \<and> rec_void (rs ! i) \<noteq> rec_prime (rs ! j))"
    if i: "2 \<le> i" "i < length rs" for i
  proof -
    define E where "E = endpoints_after (take i ps)"
    have l: "i < length ps" using i len by simp
    have "ps ! i \<noteq> 2 \<and> ps ! i \<noteq> 3" using i(1) l by (rule generate_primes_nth(3) [OF ps(1)])
    then have void: "rec_void (rs ! i) = find_void E 1"
      unfolding rs_def records_after_nth [OF l] E_def by (simp add: assign_void_search)
    have k: "rec_k (rs ! i) = int i + 1"
      unfolding rs_def using l by (rule rec_k_records_after)
    have used: "fset E = rec_void ` set (take i rs) \<union> rec_prime ` set (take i rs)"
      unfolding E_def rs_def endpoints_after_eq records_after_take ..
    have ge: "1 \<le> rec_void (rs ! i)" unfolding void by (rule find_void_ge)
    have notin: "rec_void (rs ! i) \<notin> fset E" unfolding void by (rule find_void_notin)
    have below: "\<forall>u. 1 \<le> u \<and> u < rec_void (rs ! i) \<longrightarrow> u \<in> fset E"
      unfolding void using find_void_below by blast
    have step: "fset (endpoints_after (take (Suc i) ps)) =
        insert (rec_void (rs ! i)) (insert (rec_prime (rs ! i)) (fset E))"
      unfolding rs_def E_def using l by (rule endpoints_after_take_Suc)
    have "rs ! i \<in> set (records_after ps)" unfolding rs_def using l by simp
    with ps(1) have "rec_void (rs ! i) < rec_prime (rs ! i)"
      by (rule generate_primes_void_below)
    then have own: "rec_void (rs ! i) \<noteq> rec_prime (rs ! i)" by simp
    have earlier: "rec_void (rs ! i) \<noteq> rec_void (rs ! j) \<and> rec_void (rs ! i) \<noteq> rec_prime (rs ! j)"
      if j: "j < i" for j
    proof -
      have "take i rs ! j \<in> set (take i rs)" using j i(2) by (intro nth_mem) simp
      then have "rs ! j \<in> set (take i rs)" using j by simp
      then have "rec_void (rs ! j) \<in> fset E" "rec_prime (rs ! j) \<in> fset E"
        unfolding used by blast+
      with notin show ?thesis by metis
    qed
    from k used ge notin below step own earlier show ?thesis
      unfolding E_def by blast
  qed
  define ls where
    "ls = \<lparr>ls_n_primes = n, ls_primes = ps, ls_composites = generate_composites n,
           ls_results = rs\<rparr>"
  have sel: "ls_results ls = rs" "ls_primes ls = ps" by (simp_all add: ls_def)
  have run: "LayerSystem n = Some (Inr ls)"
    unfolding rs_def ls_def using ps(1) by (rule LayerSystem_eq)
  have all: "\<forall>i. 2 \<le> i \<and> i < length rs \<longrightarrow>
     rec_k (rs ! i) = int i + 1 \<and>
     fset (endpoints_after (take i ps)) =
       rec_void ` set (take i rs) \<union> rec_prime ` set (take i rs) \<and>
     1 \<le> rec_void (rs ! i) \<and>
     rec_void (rs ! i) \<notin> fset (endpoints_after (take i ps)) \<and>
     (\<forall>u. 1 \<le> u \<and> u < rec_void (rs ! i) \<longrightarrow> u \<in> fset (endpoints_after (take i ps))) \<and>
     fset (endpoints_after (take (Suc i) ps)) =
       insert (rec_void (rs ! i)) (insert (rec_prime (rs ! i)) (fset (endpoints_after (take i ps)))) \<and>
     rec_void (rs ! i) \<noteq> rec_prime (rs ! i) \<and>
     (\<forall>j < i. rec_void (rs ! i) \<noteq> rec_void (rs ! j) \<and> rec_void (rs ! i) \<noteq> rec_prime (rs ! j))"
    using later by (intro allI impI) (elim conjE)
  show ?thesis
    by (rule exI [of _ ls], unfold sel) (intro conjI impI run first second all; assumption)
qed

theorem void_is_least_unused_witness:
  "LayerSystem 3 =
     Some (Inr \<lparr>ls_n_primes = 3, ls_primes = [2, 3, 5], ls_composites = [4, 6, 8],
                ls_results = [record_of 1 2 1, record_of 2 3 2, record_of 3 5 4]\<rparr>) \<and>
   fset (endpoints_after (take 2 [2, 3, 5])) = {1, 2, 3} \<and>
   rec_k (record_of 3 5 4) = 3 \<and> rec_void (record_of 3 5 4) = 4 \<and>
   rec_void (record_of 3 5 4) \<notin> fset (endpoints_after (take 2 [2, 3, 5])) \<and>
   fset (endpoints_after (take 3 [2, 3, 5])) = {1, 2, 3, 4, 5} \<and>
   rec_void (record_of 1 2 1) = 1 \<and> rec_void (record_of 2 3 2) = 2"
  using void_is_least_unused [of 3]
  by (auto simp: LayerSystem_3 state_after_2_3 endpoints_after_2_3_5)

text \<open>
  Claim C7, as it stands, fails: the value returned does not hold the standard
  deviation. Two lists of records with the threshold 1000 get the same value from
  \<^verbatim>\<open>calculate_constant\<close>, while the standard deviations of their constants differ.
\<close>

theorem calculate_constant_returns_no_std_dev:
  "calculate_constant [record_of 1 1002 0] 1000 =
     calculate_constant
       [record_of 1 1002 501, record_of 2 1002 (- 1002), record_of 3 1002 (- 1002)] 1000 \<and>
   collect_constants 1000 [record_of 1 1002 0] [] = Inr [0] \<and>
   collect_constants 1000
     [record_of 1 1002 501, record_of 2 1002 (- 1002), record_of 3 1002 (- 1002)] [] =
     Inr [ln 1002 * ln (ln 1002), - (ln 1002 * ln (ln 1002) / 2),
          - (ln 1002 * ln (ln 1002) / 2)] \<and>
   std_dev [0] \<noteq>
     std_dev [ln 1002 * ln (ln 1002), - (ln 1002 * ln (ln 1002) / 2),
              - (ln 1002 * ln (ln 1002) / 2)]"
proof -
  have "ln (1002::real) * ln (ln 1002) \<noteq> 0"
    using ln_1002 ln_ln_1002 by simp
  then have "std_dev [ln 1002 * ln (ln 1002), - (ln 1002 * ln (ln 1002) / 2),
                      - (ln 1002 * ln (ln 1002) / 2)] \<noteq> 0"
    by (rule std_dev_spread)
  moreover have "std_dev [0] = 0"
    by (simp add: std_dev_def avg_constant_def)
  moreover have "calculate_constant [record_of 1 1002 0] 1000 = Inr 0"
    unfolding calculate_constant_def constants_flat by (simp add: avg_constant_def)
  moreover have "calculate_constant
       [record_of 1 1002 501, record_of 2 1002 (- 1002), record_of 3 1002 (- 1002)] 1000 = Inr 0"
    unfolding calculate_constant_def constants_spread by (simp add: avg_constant_spread)
  ultimately show ?thesis
    using constants_flat constants_spread by simp
qed

text \<open>
  Claim C7, amended. With a threshold \<open>min_prime \<ge> 1\<close>, \<^verbatim>\<open>calculate_constant\<close>
  raises nothing, computes \<open>c = (prime / sum - 1) * ln prime * ln (ln prime)\<close> for
  exactly the records with \<open>prime > min_prime\<close> and \<open>sum > 0\<close>, in their order, and
  returns the average of these values alone, or 0 when no record qualifies.
\<close>

theorem calculate_constant_returns_average:
  assumes "1 \<le> min_prime"
  shows "calculate_constant results min_prime =
     Inr (let constants =
                map (\<lambda>r. (real_of_int (rec_prime r) / real_of_int (rec_sum r) - 1) *
                          ln (real_of_int (rec_prime r)) * ln (ln (real_of_int (rec_prime r))))
                  (filter (\<lambda>r. min_prime < rec_prime r \<and> 0 < rec_sum r) results)
          in if constants = [] then 0 else sum_list constants / real (length constants))"
  unfolding calculate_constant_def collect_constants_eq [OF assms]
  by (simp add: Let_def avg_constant_def)

theorem calculate_constant_returns_average_witness:
  "(1::int) \<le> 1000 \<and>
   calculate_constant
     [record_of 1 2 1, record_of 2 1002 501, record_of 3 1002 (- 1002),
      record_of 4 1002 (- 1002), record_of 5 1009 1009] 1000 = Inr 0"
proof -
  have "(1::int) \<le> 1000" by simp
  from calculate_constant_returns_average [OF this,
      of "[record_of 1 2 1, record_of 2 1002 501, record_of 3 1002 (- 1002),
           record_of 4 1002 (- 1002), record_of 5 1009 1009]"]
  show ?thesis by (simp add: Let_def)
qed


text \<open>
  Claim C9. Run the pipeline twice on the same \<open>n_primes\<close>, each run with its own
  order of the elements in the set of used endpoints (any rearrangement after any
  insertion, as long as no element is lost or made up). Both runs return, with the
  same primes, the same composites and the same records: equal ranks, primes, voids,
  sums and ratios, in the same order. Prime and composite generation hold no set at
  all; the engine reads its set through membership tests only, never by iterating it.
\<close>

theorem pipeline_deterministic:
  assumes "\<forall>xs. set (layout1 xs) = set xs" and "\<forall>xs. set (layout2 xs) = set xs"
  shows "\<exists>ls. LayerSystem_ordered layout1 n = Some (Inr ls) \<and>
              LayerSystem_ordered layout2 n = Some (Inr ls) \<and>
              length (ls_results ls) = nat n"
proof -
  obtain ps where ps: "generate_primes n = Some ps" "length ps = nat n"
    using generate_primes_first_of by blast
  from LayerSystem_eq [OF ps(1)] ps(2) show ?thesis
    by (simp add: LayerSystem_ordered_eq [OF assms(1)] LayerSystem_ordered_eq [OF assms(2)])
qed

theorem pipeline_deterministic_witness:
  "(\<forall>xs :: int list. set ((\<lambda>xs. xs) xs) = set xs) \<and> (\<forall>xs :: int list. set (rev xs) = set xs) \<and>
   store_add (\<lambda>xs. xs) 5 [1] = [1, 5] \<and> store_add rev 5 [1] = [5, 1] \<and>
   hd (store_add (\<lambda>xs. xs) 5 [1]) \<noteq> hd (store_add rev 5 [1]) \<and>
   LayerSystem_ordered (\<lambda>xs. xs) 3 =
     Some (Inr \<lparr>ls_n_primes = 3, ls_primes = [2, 3, 5], ls_composites = [4, 6, 8],
                ls_results = [record_of 1 2 1, record_of 2 3 2, record_of 3 5 4]\<rparr>) \<and>
   LayerSystem_ordered rev 3 =
     Some (Inr \<lparr>ls_n_primes = 3, ls_primes = [2, 3, 5], ls_composites = [4, 6, 8],
                ls_results = [record_of 1 2 1, record_of 2 3 2, record_of 3 5 4]\<rparr>)"
proof -
  have l1: "\<forall>xs :: int list. set ((\<lambda>xs. xs) xs) = set xs" by simp
  have l2: "\<forall>xs :: int list. set (rev xs) = set xs" by simp
  obtain ls where ls: "LayerSystem_ordered (\<lambda>xs. xs) 3 = Some (Inr ls)"
    "LayerSystem_ordered rev 3 = Some (Inr ls)"
    using pipeline_deterministic [OF l1 l2, of 3] by blast
  have "LayerSystem_ordered (\<lambda>xs. xs) 3 = LayerSystem 3"
    using l1 by (rule LayerSystem_ordered_eq)
  with ls LayerSystem_3 show ?thesis
    using l2 by (simp add: layouts_differ)
qed

end
